theory Spec2Isabelle
  imports Complex_Main "HOL-Library.AList" "HOL-Library.Word"
begin

section \<open>Data model of the session search index\<close>

text \<open>
  The development follows \<^verbatim>\<open>src/hooks/useSessionSearch.ts\<close> and the types of
  \<^verbatim>\<open>lib/opencode.ts\<close>. A JavaScript \<^verbatim>\<open>number\<close> holding a timestamp is an
  \<^typ>\<open>int\<close>; a \<^verbatim>\<open>Map<string, V>\<close> is an association list with distinct keys in
  insertion order (\<open>set\<close> on a present key keeps its position, as \<^const>\<open>AList.update\<close>
  does); an optional field is an \<^typ>\<open>'a option\<close>. Field names carry the initial of their
  record (\<open>s_\<close>, \<open>p_\<close>, \<open>m_\<close>, \<open>ix_\<close>); \<open>s_created\<close> and \<open>s_updated\<close> are \<^verbatim>\<open>time.created\<close>
  and \<^verbatim>\<open>time.updated\<close>. A string that the code only stores, compares and concatenates is a
  \<^typ>\<open>string\<close>; the search text, which \<^verbatim>\<open>trim\<close> reads character by character, is the list of
  its UTF-16 code units.
\<close>

record Session =
  s_id :: string
  s_projectID :: string
  s_directory :: string
  s_title :: string
  s_version :: string
  s_created :: int
  s_updated :: int
  s_share :: "string option"

record MessagePart =
  p_type :: string
  p_id :: "string option"
  p_text :: "string option"

datatype role = User | Assistant

record Message =
  m_id :: string
  m_sessionID :: string
  m_role :: role
  m_parts :: "MessagePart list"

record IndexedSession =
  ix_id :: string
  ix_title :: string
  ix_directory :: string
  ix_content :: string
  ix_updated :: int

record CachedIndex =
  version :: int
  sessionHashes :: "(string \<times> string) list"
  indexedSessions :: "IndexedSession list"

definition CACHE_VERSION :: int where
  "CACHE_VERSION = 1"

definition MESSAGES_PER_SESSION :: nat where
  "MESSAGES_PER_SESSION = 10"

subsection \<open>Numbers in template literals\<close>

text \<open>
  \<^verbatim>\<open>`${n}`\<close> prints an integer in decimal, with a leading minus sign when negative.
\<close>

definition digit_char :: "nat \<Rightarrow> char" where
  "digit_char d = char_of (48 + d)"

fun digits :: "nat \<Rightarrow> string" where
  "digits n = (if n < 10 then [digit_char n] else digits (n div 10) @ [digit_char (n mod 10)])"

definition number_to_string :: "int \<Rightarrow> string" where
  "number_to_string n = (if n < 0 then CHR ''-'' # digits (nat (- n)) else digits (nat n))"

definition hashSession :: "Session \<Rightarrow> string" where
  "hashSession session = number_to_string (s_updated session)"

subsection \<open>Content extractor\<close>

text \<open>\<^verbatim>\<open>Array.prototype.join\<close> and \<^verbatim>\<open>slice(-k)\<close>.\<close>

fun join :: "string \<Rightarrow> string list \<Rightarrow> string" where
  "join sep [] = []"
| "join sep [x] = x"
| "join sep (x # y # ys) = x @ sep @ join sep (y # ys)"

definition slice_last :: "nat \<Rightarrow> 'a list \<Rightarrow> 'a list" where
  "slice_last k xs = drop (length xs - k) xs"

text \<open>
  The filter \<^verbatim>\<open>part.type === "text" && part.text\<close> keeps a part when its type is
  \<^verbatim>\<open>"text"\<close> and its text is truthy: present and not the empty string.
\<close>

definition is_text_part :: "MessagePart \<Rightarrow> bool" where
  "is_text_part part = (p_type part = ''text'' \<and> (case p_text part of None \<Rightarrow> False | Some t \<Rightarrow> t \<noteq> []))"

definition text_of :: "MessagePart \<Rightarrow> string" where
  "text_of part = (case p_text part of None \<Rightarrow> [] | Some t \<Rightarrow> t)"

definition extractTextFromMessages :: "Message list \<Rightarrow> string" where
  "extractTextFromMessages messages =
     (let recentMessages = slice_last MESSAGES_PER_SESSION messages
      in join '' '' (concat (map (\<lambda>msg. map text_of (filter is_text_part (m_parts msg))) recentMessages)))"

subsection \<open>The index and the record map\<close>

text \<open>
  The FlexSearch index is an external library. It is modelled by its register: the
  document text stored under each id. \<^verbatim>\<open>add\<close> stores a document (replacing the document
  of an id already registered), \<^verbatim>\<open>remove\<close> drops an id. What \<^verbatim>\<open>search\<close> returns for a
  register and a query is left to the library and is a parameter of the search facade.
\<close>

type_synonym Index = "(string \<times> string) list"
type_synonym RecordMap = "(string \<times> IndexedSession) list"

definition index_add :: "string \<Rightarrow> string \<Rightarrow> Index \<Rightarrow> Index" where
  "index_add i doc idx = AList.update i doc idx"

definition index_remove :: "string \<Rightarrow> Index \<Rightarrow> Index" where
  "index_remove i idx = AList.delete i idx"

definition has :: "RecordMap \<Rightarrow> string \<Rightarrow> bool" where
  "has m k = (map_of m k \<noteq> None)"

text \<open>The item stored under the cache key: absent, not parseable, or a parsed snapshot.\<close>

datatype stored = NoItem | Unparseable | Json CachedIndex

record state =
  index :: Index
  indexedData :: RecordMap
  storage :: stored
  isIndexingRef :: bool
  isIndexing :: bool
  indexProgress :: nat

text \<open>\<^verbatim>\<open>`${t} ${d} ${c}`\<close> and \<^verbatim>\<open>t || ""\<close> on strings.\<close>

definition index_text :: "string \<Rightarrow> string \<Rightarrow> string \<Rightarrow> string" where
  "index_text t d c = t @ '' '' @ d @ '' '' @ c"

definition or_empty :: "string \<Rightarrow> string" where
  "or_empty t = (if t = [] then [] else t)"

subsection \<open>Persistent cache\<close>

definition load_item :: "IndexedSession \<Rightarrow> state \<Rightarrow> state" where
  "load_item item st =
     st\<lparr>indexedData := AList.update (ix_id item) item (indexedData st),
        index := index_add (ix_id item) (index_text (ix_title item) (ix_directory item) (ix_content item)) (index st)\<rparr>"

definition loadCachedIndex :: "state \<Rightarrow> state" where
  "loadCachedIndex st =
     (case storage st of
        NoItem \<Rightarrow> st
      | Unparseable \<Rightarrow> st
      | Json cached \<Rightarrow>
          if version cached \<noteq> CACHE_VERSION then st
          else fold load_item (indexedSessions cached) st)"

definition snapshot :: "RecordMap \<Rightarrow> CachedIndex" where
  "snapshot m =
     \<lparr>version = CACHE_VERSION,
      sessionHashes = fold (\<lambda>(i, d) h. AList.update i (number_to_string (ix_updated d)) h) m [],
      indexedSessions = map snd m\<rparr>"

text \<open>
  \<^verbatim>\<open>LocalStorage.setItem\<close> may reject (the store has a quota); the rejection is caught
  and ignored, which leaves the stored item as it was.
\<close>

definition saveCachedIndex :: "bool \<Rightarrow> state \<Rightarrow> state" where
  "saveCachedIndex setItem_ok st =
     (if setItem_ok then st\<lparr>storage := Json (snapshot (indexedData st))\<rparr> else st)"

subsection \<open>Change detector\<close>

definition needsIndex :: "RecordMap \<Rightarrow> Session \<Rightarrow> bool" where
  "needsIndex m session =
     (case map_of m (s_id session) of
        None \<Rightarrow> True
      | Some cached \<Rightarrow> hashSession session \<noteq> number_to_string (ix_updated cached))"

definition findSessionsNeedingIndex :: "Session list \<Rightarrow> RecordMap \<Rightarrow> Session list" where
  "findSessionsNeedingIndex sessions m = filter (needsIndex m) sessions"

subsection \<open>Batch indexer\<close>

text \<open>
  \<open>fetch i limit\<close> is \<^verbatim>\<open>client.getSessionMessages(i, limit)\<close>: \<open>None\<close> when the request
  is rejected. One call of \<open>indexSession\<close> is the body of the \<^verbatim>\<open>batch.map\<close> callback, from
  the moment its fetch has settled; it runs without interruption on the single thread.
\<close>

type_synonym client = "string \<Rightarrow> nat \<Rightarrow> Message list option"

definition full_record :: "Session \<Rightarrow> string \<Rightarrow> IndexedSession" where
  "full_record session content =
     \<lparr>ix_id = s_id session, ix_title = or_empty (s_title session),
      ix_directory = or_empty (s_directory session), ix_content = content,
      ix_updated = s_updated session\<rparr>"

definition indexSession :: "client \<Rightarrow> Session \<Rightarrow> state \<Rightarrow> state" where
  "indexSession fetch session st =
     (case fetch (s_id session) (MESSAGES_PER_SESSION * 2) of
        Some messages \<Rightarrow>
          (let content = extractTextFromMessages messages;
               indexed = full_record session content;
               idx = (if has (indexedData st) (s_id session) then index_remove (s_id session) (index st)
                      else index st)
           in st\<lparr>index := index_add (s_id session)
                              (index_text (ix_title indexed) (ix_directory indexed) (ix_content indexed)) idx,
                 indexedData := AList.update (s_id session) indexed (indexedData st)\<rparr>)
      | None \<Rightarrow>
          (let indexed = full_record session []
           in if \<not> has (indexedData st) (s_id session)
              then st\<lparr>index := index_add (s_id session)
                                   (ix_title indexed @ '' '' @ ix_directory indexed) (index st),
                      indexedData := AList.update (s_id session) indexed (indexedData st)\<rparr>
              else st))"

text \<open>
  The callbacks of one batch settle in some order; the list given to \<open>indexSessionBatch\<close>
  is taken in that order.
\<close>

definition indexSessionBatch :: "client \<Rightarrow> Session list \<Rightarrow> state \<Rightarrow> state" where
  "indexSessionBatch fetch batch st = fold (indexSession fetch) batch st"

subsection \<open>Pruning\<close>

text \<open>
  The loop visits the keys of the record map; deleting the key being visited does not disturb
  the visit of the others.
\<close>

definition prune_step :: "Session list \<Rightarrow> string \<Rightarrow> state \<Rightarrow> state" where
  "prune_step sessions i st =
     (if i \<notin> set (map s_id sessions)
      then st\<lparr>index := index_remove i (index st), indexedData := AList.delete i (indexedData st)\<rparr>
      else st)"

definition pruneDeletedSessions :: "Session list \<Rightarrow> state \<Rightarrow> state" where
  "pruneDeletedSessions sessions st = fold (prune_step sessions) (map fst (indexedData st)) st"

subsection \<open>The refresh cycle\<close>

text \<open>
  What a cycle leaves behind: the state, the ids whose messages were requested (in order),
  the values passed to \<^verbatim>\<open>setIndexProgress\<close> (in order) and the batches handed to
  \<^verbatim>\<open>indexSessionBatch\<close> (in order).
\<close>

record cycle =
  final :: state
  fetched :: "string list"
  reported :: "nat list"
  batches :: "Session list list"

record env =
  getClient :: "client option"
  setItem_ok :: bool

text \<open>
  \<^verbatim>\<open>slice(start, end)\<close> for \<open>0 \<le> start\<close> and \<open>end\<close> within the list: empty when \<open>end \<le> start\<close>.
  \<open>progress_of\<close> is \<^verbatim>\<open>Math.round(((batchIndex + 1) / 4) * 100)\<close>. The loop leaves at the first
  empty batch; the pause between batches changes no state and is not modelled.
\<close>

definition slice :: "nat \<Rightarrow> nat \<Rightarrow> 'a list \<Rightarrow> 'a list" where
  "slice start end xs = take (end - start) (drop start xs)"

definition batch_of :: "Session list \<Rightarrow> nat \<Rightarrow> nat \<Rightarrow> Session list" where
  "batch_of sessionsToIndex batchSize batchIndex =
     (let start = batchIndex * batchSize;
          end = min (start + batchSize) (length sessionsToIndex)
      in slice start end sessionsToIndex)"

definition progress_of :: "nat \<Rightarrow> nat" where
  "progress_of batchIndex = nat (round ((real (batchIndex + 1) / 4) * 100))"

function run_batches :: "client \<Rightarrow> Session list \<Rightarrow> nat \<Rightarrow> nat \<Rightarrow> cycle \<Rightarrow> cycle" where
  "run_batches fetch sessionsToIndex batchSize batchIndex c =
     (if batchIndex < 4 then
        (let batch = batch_of sessionsToIndex batchSize batchIndex
         in if length batch = 0 then c
            else run_batches fetch sessionsToIndex batchSize (batchIndex + 1)
                   \<lparr>final = (indexSessionBatch fetch batch (final c))\<lparr>indexProgress := progress_of batchIndex\<rparr>,
                    fetched = fetched c @ map s_id batch,
                    reported = reported c @ [progress_of batchIndex],
                    batches = batches c @ [batch]\<rparr>)
      else c)"
  by pat_completeness auto
termination
  by (relation "measure (\<lambda>(fetch, sessionsToIndex, batchSize, batchIndex, c). 4 - batchIndex)") auto

text \<open>
  \<^verbatim>\<open>[...sessions].sort((a, b) => b.time.updated - a.time.updated)\<close>: a stable sort, most
  recently updated first.
\<close>

definition sort_desc :: "Session list \<Rightarrow> Session list" where
  "sort_desc sessions = sort_key (\<lambda>s. - s_updated s) sessions"

text \<open>
  \<open>getClient e\<close> is \<open>None\<close> when \<^verbatim>\<open>getClient()\<close> rejects (no server): \<open>buildIndex\<close> then stops
  where it is, with both indexing flags still set.
\<close>

definition buildIndex :: "env \<Rightarrow> Session list \<Rightarrow> state \<Rightarrow> cycle" where
  "buildIndex e sessions st0 =
     (let st1 = loadCachedIndex (st0\<lparr>isIndexingRef := True, isIndexing := True\<rparr>);
          sortedSessions = sort_desc sessions;
          sessionsToIndex = findSessionsNeedingIndex sortedSessions (indexedData st1)
      in if length sessionsToIndex = 0
         then \<lparr>final = st1\<lparr>isIndexing := False, indexProgress := 100, isIndexingRef := False\<rparr>,
               fetched = [], reported = [100], batches = []\<rparr>
         else
           (let batchSize = max 1 (nat \<lceil>real (length sessionsToIndex) / 4\<rceil>)
            in case getClient e of
                 None \<Rightarrow> \<lparr>final = st1, fetched = [], reported = [], batches = []\<rparr>
               | Some fetch \<Rightarrow>
                   (let c = run_batches fetch sessionsToIndex batchSize 0
                              \<lparr>final = st1, fetched = [], reported = [], batches = []\<rparr>;
                        st2 = pruneDeletedSessions sessions (final c);
                        st3 = saveCachedIndex (setItem_ok e) st2
                    in c\<lparr>final := st3\<lparr>isIndexing := False, isIndexingRef := False\<rparr>\<rparr>)))"

text \<open>The effect that starts a cycle: nothing happens for an empty list or while a cycle is marked running.\<close>

definition refresh :: "env \<Rightarrow> Session list \<Rightarrow> state \<Rightarrow> cycle" where
  "refresh e sessions st =
     (if length sessions = 0 then \<lparr>final = st, fetched = [], reported = [], batches = []\<rparr>
      else if isIndexingRef st then \<lparr>final = st, fetched = [], reported = [], batches = []\<rparr>
      else buildIndex e sessions st)"

subsection \<open>Search facade and cache clearing\<close>

text \<open>
  \<^verbatim>\<open>String.prototype.trim\<close> strips white space and line terminators at both ends: tab, line
  feed, vertical tab, form feed, carriage return, space, no-break space, U+1680, U+2000 to
  U+200A, U+2028, U+2029, U+202F, U+205F, U+3000 and U+FEFF. Each is one UTF-16 code unit.
\<close>

type_synonym utf16 = "16 word list"

definition is_ws :: "16 word \<Rightarrow> bool" where
  "is_ws c =
     (c \<in> set [0x0009, 0x000A, 0x000B, 0x000C, 0x000D, 0x0020, 0x00A0, 0x1680,
                0x2028, 0x2029, 0x202F, 0x205F, 0x3000, 0xFEFF]
      \<or> (0x2000 \<le> c \<and> c \<le> 0x200A))"

definition trim :: "utf16 \<Rightarrow> utf16" where
  "trim s = rev (dropWhile is_ws (rev (dropWhile is_ws s)))"

text \<open>
  The third effect of the hook. The result is the value given to \<^verbatim>\<open>setFilteredSessions\<close>
  together with the queries sent to \<^verbatim>\<open>index.search\<close>; \<open>lib\<close> is the library's search
  (register, query, limit).
\<close>

definition filterSessions ::
  "(Index \<Rightarrow> utf16 \<Rightarrow> nat \<Rightarrow> string list) \<Rightarrow> Index option \<Rightarrow> utf16 \<Rightarrow> Session list
     \<Rightarrow> Session list \<times> utf16 list" where
  "filterSessions lib indexRef searchText sessions =
     (if trim searchText = [] then (sessions, [])
      else case indexRef of
             None \<Rightarrow> (sessions, [])
           | Some idx \<Rightarrow>
               (let results = lib idx searchText 100;
                    matched = filter (\<lambda>s. s_id s \<in> set results) sessions
                in (sort_desc matched, [searchText])))"

text \<open>\<^verbatim>\<open>clearCache\<close>: when \<^verbatim>\<open>LocalStorage.removeItem\<close> rejects, nothing after it runs.\<close>

definition clearCache :: "bool \<Rightarrow> state \<Rightarrow> state" where
  "clearCache removeItem_ok st =
     (if removeItem_ok then st\<lparr>storage := NoItem, index := [], indexedData := [], indexProgress := 0\<rparr>
      else st)"

subsection \<open>The session list of the command\<close>

text \<open>
  The hook gets its session list from the state of the command in \<^verbatim>\<open>sessions.tsx\<close>. That
  state starts empty; \<^verbatim>\<open>loadSessions\<close> replaces it by the listed sessions sorted most
  recently updated first, or leaves it when the listing is rejected; \<^verbatim>\<open>handleDelete\<close>
  removes the session of the given id once the deletion is confirmed and accepted by the
  server, and leaves the state otherwise.
\<close>

datatype ui_event = LoadSessions "Session list option" | HandleDelete Session bool bool

fun ui_step :: "ui_event \<Rightarrow> Session list \<Rightarrow> Session list" where
  "ui_step (LoadSessions None) prev = prev"
| "ui_step (LoadSessions (Some sessionList)) prev = sort_desc sessionList"
| "ui_step (HandleDelete session confirmed deleted) prev =
     (if \<not> confirmed then prev
      else if deleted then filter (\<lambda>s. s_id s \<noteq> s_id session) prev
      else prev)"

definition sessions_after :: "ui_event list \<Rightarrow> Session list" where
  "sessions_after events = fold ui_step events []"

subsection \<open>Relaunching the command\<close>


section \<open>Auxiliary notions for the proofs\<close>

text \<open>Reading a decimal string back: the left inverse of \<^const>\<open>digits\<close>.\<close>

definition undigits :: "string \<Rightarrow> nat" where
  "undigits cs = foldl (\<lambda>a c. 10 * a + (of_char c - 48)) 0 cs"

text \<open>The records a cache load will install, and the one it leaves under a given id.\<close>

definition cache_items :: "stored \<Rightarrow> IndexedSession list" where
  "cache_items s =
     (case s of
        Json cached \<Rightarrow> if version cached = CACHE_VERSION then indexedSessions cached else []
      | _ \<Rightarrow> [])"

definition cached_record :: "stored \<Rightarrow> string \<Rightarrow> IndexedSession option" where
  "cached_record s i = find (\<lambda>item. ix_id item = i) (rev (cache_items s))"

text \<open>
  The invariant of the index and the record map: the map is keyed by the id of the record
  it holds, without repeated keys, and every id registered in the index has a record.
\<close>

definition index_invariant :: "state \<Rightarrow> bool" where
  "index_invariant st \<longleftrightarrow>
     distinct (map fst (indexedData st)) \<and>
     list_all (\<lambda>p. ix_id (snd p) = fst p) (indexedData st) \<and>
     list_all (\<lambda>i. has (indexedData st) i) (map fst (index st))"

text \<open>The sessions a cycle started in a given state will index, in processing order.\<close>

definition to_index :: "Session list \<Rightarrow> state \<Rightarrow> Session list" where
  "to_index sessions st =
     findSessionsNeedingIndex (sort_desc sessions) (indexedData (loadCachedIndex st))"

text \<open>The four chunks of a work list, as the loop of \<open>buildIndex\<close> slices them.\<close>

definition chunk_size :: "nat \<Rightarrow> nat" where
  "chunk_size n = max 1 (nat \<lceil>real n / 4\<rceil>)"

definition chunks :: "Session list \<Rightarrow> Session list list" where
  "chunks xs = map (batch_of xs (chunk_size (length xs))) [0..<4]"

definition updated_desc :: "Session list \<Rightarrow> bool" where
  "updated_desc xs = sorted (map (\<lambda>s. - s_updated s) xs)"

text \<open>
  The content extractor in the words of the specification, written on the list functions of
  the library alone: the last \<open>W\<close> messages; the texts of the segments of type \<^verbatim>\<open>text\<close> of a
  message, in order; a list of texts with one space between neighbours. \<open>spec_extract\<close> takes
  every such segment, \<open>spec_extract_nonempty\<close> those whose text is not empty.
\<close>

definition spec_last :: "nat \<Rightarrow> 'a list \<Rightarrow> 'a list" where
  "spec_last W xs = rev (take W (rev xs))"

definition spec_texts :: "Message \<Rightarrow> string list" where
  "spec_texts msg =
     map (\<lambda>part. case p_text part of None \<Rightarrow> [] | Some t \<Rightarrow> t)
       (filter (\<lambda>part. p_type part = ''text'') (m_parts msg))"

definition spec_join :: "string list \<Rightarrow> string" where
  "spec_join ts = (case ts of [] \<Rightarrow> [] | t # rest \<Rightarrow> t @ concat (map (\<lambda>u. '' '' @ u) rest))"

definition spec_extract :: "nat \<Rightarrow> Message list \<Rightarrow> string" where
  "spec_extract W messages = spec_join (concat (map spec_texts (spec_last W messages)))"

definition spec_extract_nonempty :: "nat \<Rightarrow> Message list \<Rightarrow> string" where
  "spec_extract_nonempty W messages =
     spec_join (concat (map (\<lambda>msg. filter (\<lambda>t. t \<noteq> []) (spec_texts msg)) (spec_last W messages)))"





text \<open>
  What happens to the hook over time: refreshes, each with its environment and session list,
  and relaunches of the command (the command never calls \<^verbatim>\<open>clearCache\<close>). \<open>run_steps\<close> gives
  the cycles of the refreshes in order, \<open>selections\<close> the work lists they would select and
  \<open>final_state\<close> the state at the end.
\<close>

datatype step = Refresh env "Session list" | Relaunch






text \<open>
  A record is kept under an id: the record map holds it there, the stored cache holds nothing
  else for that id, and the document registered for the id is made of the record's title and
  directory followed by its content (as a cache load writes it) or of title and directory
  alone (as the failure branch writes it).
\<close>

definition kept :: "string \<Rightarrow> IndexedSession \<Rightarrow> state \<Rightarrow> bool" where
  "kept x r st \<longleftrightarrow>
     index_invariant st \<and>
     map_of (indexedData st) x = Some r \<and>
     cached_record (storage st) x \<in> {None, Some r} \<and>
     map_of (index st) x \<in> {Some (ix_title r @ '' '' @ ix_directory r),
                            Some (index_text (ix_title r) (ix_directory r) (ix_content r))}"


section \<open>Example data\<close>

definition mk_session :: "string \<Rightarrow> string \<Rightarrow> string \<Rightarrow> int \<Rightarrow> Session" where
  "mk_session i t d u =
     \<lparr>s_id = i, s_projectID = [], s_directory = d, s_title = t, s_version = [],
      s_created = 0, s_updated = u, s_share = None\<rparr>"

definition mk_record :: "string \<Rightarrow> string \<Rightarrow> string \<Rightarrow> string \<Rightarrow> int \<Rightarrow> IndexedSession" where
  "mk_record i t d c u = \<lparr>ix_id = i, ix_title = t, ix_directory = d, ix_content = c, ix_updated = u\<rparr>"

definition text_part :: "string \<Rightarrow> MessagePart" where
  "text_part t = \<lparr>p_type = ''text'', p_id = None, p_text = Some t\<rparr>"

definition mk_message :: "MessagePart list \<Rightarrow> Message" where
  "mk_message ps = \<lparr>m_id = [], m_sessionID = [], m_role = User, m_parts = ps\<rparr>"

definition mk_state :: "Index \<Rightarrow> RecordMap \<Rightarrow> stored \<Rightarrow> state" where
  "mk_state idx m s =
     \<lparr>index = idx, indexedData = m, storage = s, isIndexingRef = False, isIndexing = False,
      indexProgress = 0\<rparr>"

definition no_messages :: client where
  "no_messages i limit = Some []"

definition failing :: client where
  "failing i limit = None"

definition no_hits :: "Index \<Rightarrow> utf16 \<Rightarrow> nat \<Rightarrow> string list" where
  "no_hits idx query limit = []"

definition mk_env :: "client \<Rightarrow> env" where
  "mk_env f = \<lparr>getClient = Some f, setItem_ok = True\<rparr>"


definition fails_for_x :: client where
  "fails_for_x i limit = (if i = ''x'' then None else Some [mk_message [text_part ''hello'']])"

section \<open>Decimal printing is injective\<close>

declare digits.simps [simp del]

lemma undigits_snoc: "undigits (cs @ [c]) = 10 * undigits cs + (of_char c - 48)"
  by (simp add: undigits_def)

lemma of_char_digit_char: "d < 10 \<Longrightarrow> of_char (digit_char d) = 48 + d"
  by (simp add: digit_char_def)

lemma undigits_digits: "undigits (digits n) = n"
proof (induction n rule: digits.induct)
  case (1 n)
  show ?case
  proof (cases "n < 10")
    case True
    then show ?thesis
      by (subst digits.simps) (simp add: undigits_def of_char_digit_char)
  next
    case False
    have "undigits (digits n) = 10 * undigits (digits (n div 10)) + (of_char (digit_char (n mod 10)) - 48)"
      using False by (subst digits.simps) (simp add: undigits_snoc)
    also have "\<dots> = 10 * (n div 10) + n mod 10"
      using 1 False by (simp add: of_char_digit_char)
    finally show ?thesis by simp
  qed
qed

lemma digits_inject: "digits n = digits m \<Longrightarrow> n = m"
  by (metis undigits_digits)

lemma digit_char_not_minus: "d < 10 \<Longrightarrow> digit_char d \<noteq> CHR ''-''"
proof
  assume d: "d < 10" and e: "digit_char d = CHR ''-''"
  have "(of_char (digit_char d) :: nat) = of_char (CHR ''-'')" using e by simp
  then show False using d by (simp add: of_char_digit_char)
qed

lemma minus_notin_digits: "CHR ''-'' \<notin> set (digits n)"
proof (induction n rule: digits.induct)
  case (1 n)
  show ?case
  proof (cases "n < 10")
    case True
    then show ?thesis
      using digit_char_not_minus [of n] by (subst digits.simps) auto
  next
    case False
    then show ?thesis
      using 1 digit_char_not_minus [of "n mod 10"] by (subst digits.simps) auto
  qed
qed

lemma number_to_string_inject: "number_to_string a = number_to_string b \<longleftrightarrow> a = b"
proof
  assume eq: "number_to_string a = number_to_string b"
  show "a = b"
  proof (cases "a < 0")
    case an: True
    show ?thesis
    proof (cases "b < 0")
      case True
      with an eq have "digits (nat (- a)) = digits (nat (- b))"
        by (simp add: number_to_string_def)
      then have "nat (- a) = nat (- b)" by (rule digits_inject)
      with an True show ?thesis by simp
    next
      case False
      with an eq have "CHR ''-'' # digits (nat (- a)) = digits (nat b)"
        by (simp add: number_to_string_def)
      then have "CHR ''-'' \<in> set (digits (nat b))" by (metis list.set_intros(1))
      then show ?thesis using minus_notin_digits by blast
    qed
  next
    case ap: False
    show ?thesis
    proof (cases "b < 0")
      case True
      with ap eq have "digits (nat a) = CHR ''-'' # digits (nat (- b))"
        by (simp add: number_to_string_def)
      then have "CHR ''-'' \<in> set (digits (nat a))" by (metis list.set_intros(1))
      then show ?thesis using minus_notin_digits by blast
    next
      case False
      with ap eq have "digits (nat a) = digits (nat b)"
        by (simp add: number_to_string_def)
      then have "nat a = nat b" by (rule digits_inject)
      with ap False show ?thesis by simp
    qed
  qed
qed simp

section \<open>Change detector\<close>

lemma needsIndex_iff:
  "needsIndex m session \<longleftrightarrow>
     (case map_of m (s_id session) of None \<Rightarrow> True | Some cached \<Rightarrow> ix_updated cached \<noteq> s_updated session)"
  by (auto simp: needsIndex_def hashSession_def number_to_string_inject split: option.splits)

section \<open>The batch loop\<close>

lemma batch_of_eq: "batch_of xs bs i = take bs (drop (i * bs) xs)"
  by (simp add: batch_of_def slice_def Let_def min_def)

lemma indexSession_indexProgress:
  "indexSession f s (st\<lparr>indexProgress := p\<rparr>) = (indexSession f s st)\<lparr>indexProgress := p\<rparr>"
  by (simp add: indexSession_def Let_def split: option.splits)

lemma indexSessionBatch_indexProgress:
  "indexSessionBatch f b (st\<lparr>indexProgress := p\<rparr>) = (indexSessionBatch f b st)\<lparr>indexProgress := p\<rparr>"
  unfolding indexSessionBatch_def
  by (induction b arbitrary: st) (simp_all add: indexSession_indexProgress)

lemma indexSessionBatch_append:
  "indexSessionBatch f (xs @ ys) st = indexSessionBatch f ys (indexSessionBatch f xs st)"
  by (simp add: indexSessionBatch_def)

declare run_batches.simps [simp del]

lemma take_drop_split:
  "i < 4 \<Longrightarrow> take ((4 - i) * bs) (drop (i * bs) xs)
     = take bs (drop (i * bs) xs) @ take ((4 - (i + 1)) * bs) (drop ((i + 1) * bs) xs)"
proof -
  assume "i < (4::nat)"
  then have e: "(4 - i) * bs = bs + (4 - (i + 1)) * bs"
    by (metis Suc_diff_Suc Suc_eq_plus1 diff_Suc_1 diff_diff_left mult_Suc)
  show ?thesis
    unfolding e by (simp add: take_add add.commute)
qed

lemma run_batches_fetched:
  "fetched (run_batches f xs bs i c) = fetched c @ map s_id (take ((4 - i) * bs) (drop (i * bs) xs))"
proof (induction f xs bs i c rule: run_batches.induct)
  case (1 f xs bs i c)
  show ?case
  proof (cases "i < 4")
    case False
    then show ?thesis by (subst run_batches.simps) simp
  next
    case lt: True
    show ?thesis
    proof (cases "batch_of xs bs i = []")
      case True
      then have "take ((4 - i) * bs) (drop (i * bs) xs) = []"
        unfolding batch_of_eq by (auto simp: take_eq_Nil)
      with True lt show ?thesis by (subst run_batches.simps) simp
    next
      case False
      with lt 1 show ?thesis
        by (subst run_batches.simps) (simp add: take_drop_split [OF lt] batch_of_eq Let_def)
    qed
  qed
qed

lemma run_batches_final:
  "\<exists>p. final (run_batches f xs bs i c)
     = (indexSessionBatch f (take ((4 - i) * bs) (drop (i * bs) xs)) (final c))\<lparr>indexProgress := p\<rparr>"
proof (induction f xs bs i c rule: run_batches.induct)
  case (1 f xs bs i c)
  have stop: "\<exists>p. final c = (indexSessionBatch f [] (final c))\<lparr>indexProgress := p\<rparr>"
    by (rule exI [of _ "indexProgress (final c)"]) (simp add: indexSessionBatch_def)
  show ?case
  proof (cases "i < 4")
    case False
    then have r: "final (run_batches f xs bs i c) = final c"
      by (subst run_batches.simps) simp
    have e: "take ((4 - i) * bs) (drop (i * bs) xs) = []" using False by simp
    show ?thesis unfolding e r by (rule stop)
  next
    case lt: True
    show ?thesis
    proof (cases "batch_of xs bs i = []")
      case True
      then have e: "take ((4 - i) * bs) (drop (i * bs) xs) = []"
        unfolding batch_of_eq by (auto simp: take_eq_Nil)
      have r: "final (run_batches f xs bs i c) = final c"
        using True lt by (subst run_batches.simps) simp
      show ?thesis unfolding e r by (rule stop)
    next
      case False
      from 1 [OF lt refl] False obtain p where
        p: "final (run_batches f xs bs (i + 1)
             \<lparr>final = (indexSessionBatch f (batch_of xs bs i) (final c))\<lparr>indexProgress := progress_of i\<rparr>,
              fetched = fetched c @ map s_id (batch_of xs bs i),
              reported = reported c @ [progress_of i],
              batches = batches c @ [batch_of xs bs i]\<rparr>)
           = (indexSessionBatch f (take ((4 - (i + 1)) * bs) (drop ((i + 1) * bs) xs))
               ((indexSessionBatch f (batch_of xs bs i) (final c))\<lparr>indexProgress := progress_of i\<rparr>))\<lparr>indexProgress := p\<rparr>"
        by auto
      have "final (run_batches f xs bs i c)
          = (indexSessionBatch f (take ((4 - i) * bs) (drop (i * bs) xs)) (final c))\<lparr>indexProgress := p\<rparr>"
        using lt False p
        by (subst run_batches.simps)
           (simp add: take_drop_split [OF lt] indexSessionBatch_append indexSessionBatch_indexProgress
              batch_of_eq Let_def)
      then show ?thesis by (rule exI)
    qed
  qed
qed

lemma ceil_bound: "n \<le> 4 * max 1 (nat \<lceil>real n / 4\<rceil>)"
proof -
  have "real n / 4 \<le> of_int \<lceil>real n / 4\<rceil>" by (rule le_of_int_ceiling)
  then have "real n \<le> 4 * real_of_int \<lceil>real n / 4\<rceil>" by linarith
  moreover have "0 \<le> \<lceil>real n / 4\<rceil>" by simp
  ultimately have "real n \<le> 4 * real (nat \<lceil>real n / 4\<rceil>)" by simp
  then have "n \<le> 4 * nat \<lceil>real n / 4\<rceil>" by linarith
  then show ?thesis by simp
qed

lemma ceil_div4: "nat \<lceil>real n / 4\<rceil> = (n + 3) div 4"
  by linarith

section \<open>Association lists\<close>

lemma set_update_subset: "set (AList.update k v al) \<subseteq> insert (k, v) (set al)"
  by (induction al) auto

lemma set_delete_subset: "set (AList.delete k al) \<subseteq> set al"
  by (auto simp: AList.delete_eq)

lemma has_iff_key: "has m k \<longleftrightarrow> k \<in> set (map fst m)"
  by (auto simp: has_def map_of_eq_None_iff)

lemma keys_index_add: "fst ` set (index_add k d idx) = insert k (fst ` set idx)"
  using dom_update [of k d idx] by (simp add: index_add_def)

lemma keys_index_remove: "fst ` set (index_remove k idx) = fst ` set idx - {k}"
  by (auto simp: index_remove_def AList.delete_eq)

lemma keys_delete: "fst ` set (AList.delete k al) = fst ` set al - {k}"
  by (auto simp: AList.delete_eq)

lemma map_of_index_add: "map_of (index_add k d idx) = (map_of idx)(k \<mapsto> d)"
  by (simp add: index_add_def update_conv')

lemma map_of_index_remove: "map_of (index_remove k idx) = (map_of idx)(k := None)"
  by (simp add: index_remove_def delete_conv')

lemma or_empty_id [simp]: "or_empty t = t"
  by (simp add: or_empty_def)

section \<open>The invariant\<close>

lemma index_invariant_iff:
  "index_invariant st \<longleftrightarrow>
     distinct (map fst (indexedData st)) \<and>
     (\<forall>p \<in> set (indexedData st). ix_id (snd p) = fst p) \<and>
     fst ` set (index st) \<subseteq> fst ` set (indexedData st)"
  by (auto simp: index_invariant_def list_all_iff has_iff_key)

lemma invariant_set_record:
  assumes "index_invariant st" and "ix_id r = k"
    and "indexedData st' = AList.update k r (indexedData st)"
    and "index st' = index_add k d (index st)"
  shows "index_invariant st'"
proof -
  from assms(1) have d: "distinct (map fst (indexedData st))"
    and i: "\<forall>p \<in> set (indexedData st). ix_id (snd p) = fst p"
    and s: "fst ` set (index st) \<subseteq> fst ` set (indexedData st)"
    by (simp_all add: index_invariant_iff)
  have "distinct (map fst (AList.update k r (indexedData st)))"
    using d by (rule distinct_update)
  moreover have "\<forall>p \<in> set (AList.update k r (indexedData st)). ix_id (snd p) = fst p"
    using i assms(2) set_update_subset [of k r "indexedData st"] by auto
  moreover have "fst ` set (index_add k d (index st)) \<subseteq> fst ` set (AList.update k r (indexedData st))"
    using s by (auto simp: keys_index_add dom_update)
  ultimately show ?thesis by (simp add: index_invariant_iff assms(3,4))
qed

lemma invariant_remove_index:
  assumes "index_invariant st"
  shows "index_invariant (st\<lparr>index := index_remove k (index st)\<rparr>)"
  using assms by (auto simp: index_invariant_iff keys_index_remove)

lemma invariant_delete:
  assumes "index_invariant st"
  shows "index_invariant (st\<lparr>index := index_remove k (index st), indexedData := AList.delete k (indexedData st)\<rparr>)"
proof -
  from assms have d: "distinct (map fst (indexedData st))"
    and i: "\<forall>p \<in> set (indexedData st). ix_id (snd p) = fst p"
    and s: "fst ` set (index st) \<subseteq> fst ` set (indexedData st)"
    by (simp_all add: index_invariant_iff)
  have "distinct (map fst (AList.delete k (indexedData st)))"
    using d by (rule distinct_delete)
  moreover have "\<forall>p \<in> set (AList.delete k (indexedData st)). ix_id (snd p) = fst p"
    using i set_delete_subset [of k "indexedData st"] by auto
  moreover have "fst ` set (index_remove k (index st)) \<subseteq> fst ` set (AList.delete k (indexedData st))"
    using s by (auto simp: keys_index_remove keys_delete)
  ultimately show ?thesis by (simp add: index_invariant_iff)
qed

lemma invariant_load_item: "index_invariant st \<Longrightarrow> index_invariant (load_item item st)"
  by (rule invariant_set_record [where r = item and k = "ix_id item"]) (simp_all add: load_item_def)

lemma invariant_fold_load_item: "index_invariant st \<Longrightarrow> index_invariant (fold load_item items st)"
  by (induction items arbitrary: st) (simp_all add: invariant_load_item)

lemma loadCachedIndex_fold: "loadCachedIndex st = fold load_item (cache_items (storage st)) st"
  by (simp add: loadCachedIndex_def cache_items_def split: stored.splits)

lemma invariant_loadCachedIndex: "index_invariant st \<Longrightarrow> index_invariant (loadCachedIndex st)"
  by (simp add: loadCachedIndex_fold invariant_fold_load_item)

lemma invariant_indexSession: "index_invariant st \<Longrightarrow> index_invariant (indexSession f s st)"
proof -
  assume inv: "index_invariant st"
  show ?thesis
  proof (cases "f (s_id s) (MESSAGES_PER_SESSION * 2)")
    case None
    show ?thesis
    proof (cases "has (indexedData st) (s_id s)")
      case True
      with None inv show ?thesis by (simp add: indexSession_def)
    next
      case False
      show ?thesis
        by (rule invariant_set_record [OF inv, where r = "full_record s []" and k = "s_id s"])
           (simp_all add: indexSession_def None False full_record_def)
    qed
  next
    case (Some messages)
    let ?r = "full_record s (extractTextFromMessages messages)"
    show ?thesis
    proof (cases "has (indexedData st) (s_id s)")
      case True
      have "index_invariant (st\<lparr>index := index_remove (s_id s) (index st)\<rparr>)"
        using inv by (rule invariant_remove_index)
      then show ?thesis
        by (rule invariant_set_record [where r = ?r and k = "s_id s"])
           (simp_all add: indexSession_def Some True full_record_def Let_def)
    next
      case False
      show ?thesis
        by (rule invariant_set_record [OF inv, where r = ?r and k = "s_id s"])
           (simp_all add: indexSession_def Some False full_record_def Let_def)
    qed
  qed
qed

lemma invariant_indexSessionBatch: "index_invariant st \<Longrightarrow> index_invariant (indexSessionBatch f b st)"
  unfolding indexSessionBatch_def
  by (induction b arbitrary: st) (simp_all add: invariant_indexSession)

lemma invariant_prune_step: "index_invariant st \<Longrightarrow> index_invariant (prune_step S i st)"
  using invariant_delete [of st i] by (simp add: prune_step_def)

lemma invariant_fold_prune_step: "index_invariant st \<Longrightarrow> index_invariant (fold (prune_step S) ks st)"
  by (induction ks arbitrary: st) (simp_all add: invariant_prune_step)

lemma invariant_pruneDeletedSessions: "index_invariant st \<Longrightarrow> index_invariant (pruneDeletedSessions S st)"
  by (simp add: pruneDeletedSessions_def invariant_fold_prune_step)

lemma invariant_clearCache: "index_invariant st \<Longrightarrow> index_invariant (clearCache ok st)"
  by (simp add: clearCache_def index_invariant_iff)

section \<open>What one indexing step does to an id\<close>

lemma indexSession_unchanged_fields:
  "storage (indexSession f s st) = storage st"
  "isIndexingRef (indexSession f s st) = isIndexingRef st"
  "isIndexing (indexSession f s st) = isIndexing st"
  "indexProgress (indexSession f s st) = indexProgress st"
  by (simp_all add: indexSession_def Let_def split: option.splits)

lemma indexSession_other_record:
  "x \<noteq> s_id s \<Longrightarrow> map_of (indexedData (indexSession f s st)) x = map_of (indexedData st) x"
  by (simp add: indexSession_def Let_def update_conv' split: option.splits)

lemma indexSession_other_doc:
  "x \<noteq> s_id s \<Longrightarrow> map_of (index (indexSession f s st)) x = map_of (index st) x"
  by (simp add: indexSession_def Let_def map_of_index_add map_of_index_remove split: option.splits)

lemma indexSession_fetched_record:
  "f (s_id s) (MESSAGES_PER_SESSION * 2) = Some messages \<Longrightarrow>
     map_of (indexedData (indexSession f s st)) (s_id s) = Some (full_record s (extractTextFromMessages messages))"
  by (simp add: indexSession_def Let_def update_conv')

lemma indexSession_fetched_doc:
  "f (s_id s) (MESSAGES_PER_SESSION * 2) = Some messages \<Longrightarrow>
     map_of (index (indexSession f s st)) (s_id s)
       = Some (index_text (s_title s) (s_directory s) (extractTextFromMessages messages))"
  by (simp add: indexSession_def Let_def map_of_index_add full_record_def)

lemma indexSession_failed_new_record:
  "f (s_id s) (MESSAGES_PER_SESSION * 2) = None \<Longrightarrow> \<not> has (indexedData st) (s_id s) \<Longrightarrow>
     map_of (indexedData (indexSession f s st)) (s_id s) = Some (full_record s [])"
  by (simp add: indexSession_def Let_def update_conv')

lemma indexSession_failed_new_doc:
  "f (s_id s) (MESSAGES_PER_SESSION * 2) = None \<Longrightarrow> \<not> has (indexedData st) (s_id s) \<Longrightarrow>
     map_of (index (indexSession f s st)) (s_id s) = Some (s_title s @ '' '' @ s_directory s)"
  by (simp add: indexSession_def Let_def map_of_index_add full_record_def)

lemma indexSession_failed_old:
  "f (s_id s) (MESSAGES_PER_SESSION * 2) = None \<Longrightarrow> has (indexedData st) (s_id s) \<Longrightarrow>
     indexSession f s st = st"
  by (simp add: indexSession_def Let_def)

section \<open>A batch of sessions with distinct ids\<close>

lemma indexSessionBatch_unchanged_fields:
  "storage (indexSessionBatch f b st) = storage st"
  "isIndexingRef (indexSessionBatch f b st) = isIndexingRef st"
  "isIndexing (indexSessionBatch f b st) = isIndexing st"
  "indexProgress (indexSessionBatch f b st) = indexProgress st"
  unfolding indexSessionBatch_def
  by (induction b arbitrary: st) (simp_all add: indexSession_unchanged_fields)

lemma indexSessionBatch_other_record:
  "x \<notin> s_id ` set b \<Longrightarrow> map_of (indexedData (indexSessionBatch f b st)) x = map_of (indexedData st) x"
  unfolding indexSessionBatch_def
  by (induction b arbitrary: st) (simp_all add: indexSession_other_record)

lemma indexSessionBatch_other_doc:
  "x \<notin> s_id ` set b \<Longrightarrow> map_of (index (indexSessionBatch f b st)) x = map_of (index st) x"
  unfolding indexSessionBatch_def
  by (induction b arbitrary: st) (simp_all add: indexSession_other_doc)

lemma indexSessionBatch_Cons:
  "indexSessionBatch f (s # b) st = indexSessionBatch f b (indexSession f s st)"
  by (simp add: indexSessionBatch_def)

text \<open>In a batch with distinct ids, the entries of a session are those its own step leaves.\<close>

lemma indexSessionBatch_own:
  assumes "distinct (map s_id b)" and "s \<in> set b"
  shows "\<exists>st'. map_of (indexedData (indexSessionBatch f b st)) (s_id s) = map_of (indexedData (indexSession f s st')) (s_id s)
           \<and> map_of (index (indexSessionBatch f b st)) (s_id s) = map_of (index (indexSession f s st')) (s_id s)
           \<and> map_of (indexedData st') (s_id s) = map_of (indexedData st) (s_id s)
           \<and> map_of (index st') (s_id s) = map_of (index st) (s_id s)"
  using assms
proof (induction b arbitrary: st)
  case Nil
  then show ?case by simp
next
  case (Cons a b)
  show ?case
  proof (cases "s = a")
    case True
    have "s_id a \<notin> s_id ` set b" using Cons.prems(1) by simp
    then show ?thesis
      unfolding True indexSessionBatch_Cons
      by (intro exI [of _ st]) (simp add: indexSessionBatch_other_record indexSessionBatch_other_doc)
  next
    case False
    then have sb: "s \<in> set b" using Cons.prems(2) by simp
    then have ne: "s_id s \<noteq> s_id a" using Cons.prems(1) by (metis distinct.simps(2) image_eqI list.simps(9) set_map)
    from Cons.IH [OF _ sb, of "indexSession f a st"] Cons.prems(1)
    obtain st' where
      "map_of (indexedData (indexSessionBatch f b (indexSession f a st))) (s_id s) = map_of (indexedData (indexSession f s st')) (s_id s)"
      "map_of (index (indexSessionBatch f b (indexSession f a st))) (s_id s) = map_of (index (indexSession f s st')) (s_id s)"
      "map_of (indexedData st') (s_id s) = map_of (indexedData (indexSession f a st)) (s_id s)"
      "map_of (index st') (s_id s) = map_of (index (indexSession f a st)) (s_id s)"
      by auto
    then show ?thesis
      unfolding indexSessionBatch_Cons
      by (intro exI [of _ st']) (simp add: indexSession_other_record [OF ne] indexSession_other_doc [OF ne])
  qed
qed

text \<open>The order in which the sessions of a batch settle does not matter.\<close>

lemma indexSession_own_determined:
  assumes "map_of (indexedData a) (s_id s) = map_of (indexedData b) (s_id s)"
    and "map_of (index a) (s_id s) = map_of (index b) (s_id s)"
  shows "map_of (indexedData (indexSession f s a)) (s_id s) = map_of (indexedData (indexSession f s b)) (s_id s)"
    and "map_of (index (indexSession f s a)) (s_id s) = map_of (index (indexSession f s b)) (s_id s)"
  using assms
  by (simp_all add: indexSession_def Let_def has_def update_conv' map_of_index_add map_of_index_remove
      split: option.splits)

lemma indexSessionBatch_order:
  assumes "distinct (map s_id b)" and "distinct (map s_id b')" and "set b' = set b"
  shows "map_of (indexedData (indexSessionBatch f b' st)) x = map_of (indexedData (indexSessionBatch f b st)) x"
    and "map_of (index (indexSessionBatch f b' st)) x = map_of (index (indexSessionBatch f b st)) x"
proof -
  have "map_of (indexedData (indexSessionBatch f b' st)) x = map_of (indexedData (indexSessionBatch f b st)) x
      \<and> map_of (index (indexSessionBatch f b' st)) x = map_of (index (indexSessionBatch f b st)) x"
  proof (cases "x \<in> s_id ` set b")
    case False
    then show ?thesis
      using assms(3) by (simp add: indexSessionBatch_other_record indexSessionBatch_other_doc)
  next
    case True
    then obtain s where s: "s \<in> set b" and x: "x = s_id s" by auto
    obtain st1 where 1:
      "map_of (indexedData (indexSessionBatch f b st)) (s_id s) = map_of (indexedData (indexSession f s st1)) (s_id s)"
      "map_of (index (indexSessionBatch f b st)) (s_id s) = map_of (index (indexSession f s st1)) (s_id s)"
      "map_of (indexedData st1) (s_id s) = map_of (indexedData st) (s_id s)"
      "map_of (index st1) (s_id s) = map_of (index st) (s_id s)"
      using indexSessionBatch_own [OF assms(1) s, of f st] by blast
    have s': "s \<in> set b'" using s assms(3) by simp
    obtain st2 where 2:
      "map_of (indexedData (indexSessionBatch f b' st)) (s_id s) = map_of (indexedData (indexSession f s st2)) (s_id s)"
      "map_of (index (indexSessionBatch f b' st)) (s_id s) = map_of (index (indexSession f s st2)) (s_id s)"
      "map_of (indexedData st2) (s_id s) = map_of (indexedData st) (s_id s)"
      "map_of (index st2) (s_id s) = map_of (index st) (s_id s)"
      using indexSessionBatch_own [OF assms(2) s', of f st] by blast
    show ?thesis
      unfolding x 1(1,2) 2(1,2)
      using indexSession_own_determined [of st2 s st1 f] 1(3,4) 2(3,4) by simp
  qed
  then show "map_of (indexedData (indexSessionBatch f b' st)) x = map_of (indexedData (indexSessionBatch f b st)) x"
    and "map_of (index (indexSessionBatch f b' st)) x = map_of (index (indexSessionBatch f b st)) x"
    by simp_all
qed

section \<open>Pruning\<close>

lemma map_of_filter_key:
  "map_of (filter (\<lambda>p. P (fst p)) al) x = (if P x then map_of al x else None)"
  by (induction al) auto

lemma prune_step_unchanged_fields:
  "storage (prune_step S i st) = storage st"
  "isIndexingRef (prune_step S i st) = isIndexingRef st"
  "isIndexing (prune_step S i st) = isIndexing st"
  "indexProgress (prune_step S i st) = indexProgress st"
  by (simp_all add: prune_step_def)

lemma fold_prune_step_unchanged_fields:
  "storage (fold (prune_step S) ks st) = storage st"
  "isIndexingRef (fold (prune_step S) ks st) = isIndexingRef st"
  "isIndexing (fold (prune_step S) ks st) = isIndexing st"
  "indexProgress (fold (prune_step S) ks st) = indexProgress st"
  by (induction ks arbitrary: st) (simp_all add: prune_step_unchanged_fields)

lemma delete_filter: "AList.delete k al = filter (\<lambda>p. fst p \<noteq> k) al"
  by (induction al) auto

lemma prune_step_data:
  "indexedData (prune_step S k st)
     = filter (\<lambda>p. fst p \<in> s_id ` set S \<or> fst p \<noteq> k) (indexedData st)"
proof (cases "k \<in> s_id ` set S")
  case True
  then have "filter (\<lambda>p. fst p \<in> s_id ` set S \<or> fst p \<noteq> k) (indexedData st) = indexedData st"
    by (intro filter_True) auto
  with True show ?thesis by (simp add: prune_step_def)
next
  case False
  then have "filter (\<lambda>p. fst p \<in> s_id ` set S \<or> fst p \<noteq> k) (indexedData st)
      = filter (\<lambda>p. fst p \<noteq> k) (indexedData st)"
    by (intro filter_cong) auto
  with False show ?thesis by (simp add: prune_step_def delete_filter)
qed

lemma prune_step_index:
  "index (prune_step S k st)
     = filter (\<lambda>p. fst p \<in> s_id ` set S \<or> fst p \<noteq> k) (index st)"
proof (cases "k \<in> s_id ` set S")
  case True
  then have "filter (\<lambda>p. fst p \<in> s_id ` set S \<or> fst p \<noteq> k) (index st) = index st"
    by (intro filter_True) auto
  with True show ?thesis by (simp add: prune_step_def)
next
  case False
  then have "filter (\<lambda>p. fst p \<in> s_id ` set S \<or> fst p \<noteq> k) (index st)
      = filter (\<lambda>p. fst p \<noteq> k) (index st)"
    by (intro filter_cong) auto
  with False show ?thesis by (simp add: prune_step_def index_remove_def delete_filter)
qed

lemma fold_prune_step_data:
  "indexedData (fold (prune_step S) ks st)
     = filter (\<lambda>p. fst p \<in> s_id ` set S \<or> fst p \<notin> set ks) (indexedData st)"
proof (induction ks arbitrary: st)
  case Nil
  then show ?case by simp
next
  case (Cons k ks)
  have "indexedData (fold (prune_step S) (k # ks) st)
      = filter (\<lambda>p. fst p \<in> s_id ` set S \<or> fst p \<notin> set ks)
          (filter (\<lambda>p. fst p \<in> s_id ` set S \<or> fst p \<noteq> k) (indexedData st))"
    by (simp add: Cons prune_step_data)
  also have "\<dots> = filter (\<lambda>p. fst p \<in> s_id ` set S \<or> fst p \<notin> set (k # ks)) (indexedData st)"
    unfolding filter_filter by (rule filter_cong) auto
  finally show ?case .
qed

lemma fold_prune_step_index:
  "index (fold (prune_step S) ks st)
     = filter (\<lambda>p. fst p \<in> s_id ` set S \<or> fst p \<notin> set ks) (index st)"
proof (induction ks arbitrary: st)
  case Nil
  then show ?case by simp
next
  case (Cons k ks)
  have "index (fold (prune_step S) (k # ks) st)
      = filter (\<lambda>p. fst p \<in> s_id ` set S \<or> fst p \<notin> set ks)
          (filter (\<lambda>p. fst p \<in> s_id ` set S \<or> fst p \<noteq> k) (index st))"
    by (simp add: Cons prune_step_index)
  also have "\<dots> = filter (\<lambda>p. fst p \<in> s_id ` set S \<or> fst p \<notin> set (k # ks)) (index st)"
    unfolding filter_filter by (rule filter_cong) auto
  finally show ?case .
qed

lemma pruneDeletedSessions_unchanged_fields:
  "storage (pruneDeletedSessions S st) = storage st"
  "isIndexingRef (pruneDeletedSessions S st) = isIndexingRef st"
  "isIndexing (pruneDeletedSessions S st) = isIndexing st"
  "indexProgress (pruneDeletedSessions S st) = indexProgress st"
  by (simp_all add: pruneDeletedSessions_def fold_prune_step_unchanged_fields)

lemma pruneDeletedSessions_data:
  "indexedData (pruneDeletedSessions S st) = filter (\<lambda>p. fst p \<in> s_id ` set S) (indexedData st)"
  unfolding pruneDeletedSessions_def fold_prune_step_data
  by (rule filter_cong) auto

lemma pruneDeletedSessions_index:
  "index (pruneDeletedSessions S st)
     = filter (\<lambda>p. fst p \<in> s_id ` set S \<or> \<not> has (indexedData st) (fst p)) (index st)"
  unfolding pruneDeletedSessions_def fold_prune_step_index
  by (rule filter_cong) (auto simp: has_iff_key)

lemma pruneDeletedSessions_record:
  "map_of (indexedData (pruneDeletedSessions S st)) x
     = (if x \<in> s_id ` set S then map_of (indexedData st) x else None)"
  unfolding pruneDeletedSessions_data by (rule map_of_filter_key)

lemma pruneDeletedSessions_doc:
  "map_of (index (pruneDeletedSessions S st)) x
     = (if x \<in> s_id ` set S \<or> \<not> has (indexedData st) x then map_of (index st) x else None)"
  unfolding pruneDeletedSessions_index
  by (rule map_of_filter_key [where P = "\<lambda>k. k \<in> s_id ` set S \<or> \<not> has (indexedData st) k"])

section \<open>Loading the cache\<close>

lemma load_item_unchanged_fields:
  "storage (load_item item st) = storage st"
  "isIndexingRef (load_item item st) = isIndexingRef st"
  "isIndexing (load_item item st) = isIndexing st"
  "indexProgress (load_item item st) = indexProgress st"
  by (simp_all add: load_item_def)

lemma fold_load_item_unchanged_fields:
  "storage (fold load_item items st) = storage st"
  "isIndexingRef (fold load_item items st) = isIndexingRef st"
  "isIndexing (fold load_item items st) = isIndexing st"
  "indexProgress (fold load_item items st) = indexProgress st"
  by (induction items arbitrary: st) (simp_all add: load_item_unchanged_fields)

lemma loadCachedIndex_unchanged_fields:
  "storage (loadCachedIndex st) = storage st"
  "isIndexingRef (loadCachedIndex st) = isIndexingRef st"
  "isIndexing (loadCachedIndex st) = isIndexing st"
  "indexProgress (loadCachedIndex st) = indexProgress st"
  by (simp_all add: loadCachedIndex_fold fold_load_item_unchanged_fields)

lemma fold_load_item_record:
  "map_of (indexedData (fold load_item items st)) x
     = (case find (\<lambda>item. ix_id item = x) (rev items) of
          None \<Rightarrow> map_of (indexedData st) x
        | Some item \<Rightarrow> Some item)"
  by (induction items rule: rev_induct) (auto simp: load_item_def update_conv')


lemma loadCachedIndex_record:
  "map_of (indexedData (loadCachedIndex st)) x
     = (case cached_record (storage st) x of
          None \<Rightarrow> map_of (indexedData st) x
        | Some item \<Rightarrow> Some item)"
  by (simp add: loadCachedIndex_fold fold_load_item_record cached_record_def)


lemma load_item_flags:
  "load_item item (st\<lparr>isIndexingRef := a, isIndexing := b\<rparr>)
     = (load_item item st)\<lparr>isIndexingRef := a, isIndexing := b\<rparr>"
  by (cases st) (simp add: load_item_def)

lemma fold_load_item_flags:
  "fold load_item items (st\<lparr>isIndexingRef := a, isIndexing := b\<rparr>)
     = (fold load_item items st)\<lparr>isIndexingRef := a, isIndexing := b\<rparr>"
  by (induction items arbitrary: st) (simp_all add: load_item_flags)

lemma loadCachedIndex_flags:
  "loadCachedIndex (st\<lparr>isIndexingRef := a, isIndexing := b\<rparr>)
     = (loadCachedIndex st)\<lparr>isIndexingRef := a, isIndexing := b\<rparr>"
  by (simp add: loadCachedIndex_fold fold_load_item_flags)

section \<open>Saving and reading back\<close>

lemma cache_items_snapshot: "cache_items (Json (snapshot m)) = map snd m"
  by (simp add: cache_items_def snapshot_def)

lemma find_keyed:
  assumes "distinct (map fst m)" and "\<forall>p \<in> set m. ix_id (snd p) = fst p"
  shows "find (\<lambda>item. ix_id item = x) (rev (map snd m)) = map_of m x"
  using assms
proof (induction m rule: rev_induct)
  case Nil
  then show ?case by simp
next
  case (snoc p m)
  obtain k r where p: "p = (k, r)" by (cases p)
  from snoc.prems have kr: "ix_id r = k" and notin: "k \<notin> fst ` set m"
    and d: "distinct (map fst m)" and i: "\<forall>p \<in> set m. ix_id (snd p) = fst p"
    by (auto simp: p)
  have IH: "find (\<lambda>item. ix_id item = x) (rev (map snd m)) = map_of m x"
    using snoc.IH d i by blast
  show ?case
  proof (cases "k = x")
    case True
    then have "map_of m x = None" using notin by (simp add: map_of_eq_None_iff)
    then show ?thesis using True kr by (simp add: p map_of_append map_add_def)
  next
    case False
    then show ?thesis using kr IH by (simp add: p map_of_append map_add_def split: option.splits)
  qed
qed

lemma cached_record_snapshot:
  "index_invariant st \<Longrightarrow> cached_record (Json (snapshot (indexedData st))) x = map_of (indexedData st) x"
  by (simp add: cached_record_def cache_items_snapshot find_keyed index_invariant_iff)

section \<open>The cycle, case by case\<close>

lemma indexSession_flags:
  "indexSession f s (st\<lparr>isIndexingRef := a, isIndexing := b\<rparr>)
     = (indexSession f s st)\<lparr>isIndexingRef := a, isIndexing := b\<rparr>"
  by (cases st) (simp add: indexSession_def Let_def split: option.splits)

lemma indexSessionBatch_flags:
  "indexSessionBatch f batch (st\<lparr>isIndexingRef := a, isIndexing := b\<rparr>)
     = (indexSessionBatch f batch st)\<lparr>isIndexingRef := a, isIndexing := b\<rparr>"
  unfolding indexSessionBatch_def
  by (induction batch arbitrary: st) (simp_all add: indexSession_flags)

lemma take_all_batches:
  "take ((4 - 0) * max 1 (nat \<lceil>real (length xs) / 4\<rceil>)) (drop (0 * max 1 (nat \<lceil>real (length xs) / 4\<rceil>)) xs) = xs"
  using ceil_bound [of "length xs"] by simp

lemma buildIndex_nothing:
  assumes "to_index S st0 = []"
  shows "buildIndex e S st0 =
     \<lparr>final = (loadCachedIndex st0)\<lparr>isIndexingRef := False, isIndexing := False, indexProgress := 100\<rparr>,
      fetched = [], reported = [100], batches = []\<rparr>"
proof -
  have "(loadCachedIndex st0)\<lparr>isIndexingRef := True, isIndexing := True, isIndexing := False,
           indexProgress := 100, isIndexingRef := False\<rparr>
      = (loadCachedIndex st0)\<lparr>isIndexingRef := False, isIndexing := False, indexProgress := 100\<rparr>"
    by (cases "loadCachedIndex st0") simp
  then show ?thesis
    using assms by (simp add: buildIndex_def to_index_def Let_def loadCachedIndex_flags)
qed

lemma buildIndex_no_client:
  assumes "to_index S st0 \<noteq> []" and "getClient e = None"
  shows "buildIndex e S st0 =
     \<lparr>final = (loadCachedIndex st0)\<lparr>isIndexingRef := True, isIndexing := True\<rparr>,
      fetched = [], reported = [], batches = []\<rparr>"
  using assms by (simp add: buildIndex_def to_index_def Let_def loadCachedIndex_flags)

lemma buildIndex_run:
  assumes "to_index S st0 \<noteq> []" and "getClient e = Some f"
  shows "buildIndex e S st0 =
     (let c = run_batches f (to_index S st0) (max 1 (nat \<lceil>real (length (to_index S st0)) / 4\<rceil>)) 0
                \<lparr>final = (loadCachedIndex st0)\<lparr>isIndexingRef := True, isIndexing := True\<rparr>,
                 fetched = [], reported = [], batches = []\<rparr>
      in c\<lparr>final := (saveCachedIndex (setItem_ok e) (pruneDeletedSessions S (final c)))
                       \<lparr>isIndexing := False, isIndexingRef := False\<rparr>\<rparr>)"
  using assms by (simp add: buildIndex_def to_index_def Let_def loadCachedIndex_flags)

lemma buildIndex_fetched:
  assumes "to_index S st0 \<noteq> []" and "getClient e = Some f"
  shows "fetched (buildIndex e S st0) = map s_id (to_index S st0)"
  unfolding buildIndex_run [OF assms] Let_def
  by (simp add: run_batches_fetched take_all_batches [simplified])

lemma buildIndex_reported_run:
  assumes "to_index S st0 \<noteq> []" and "getClient e = Some f"
  shows "reported (buildIndex e S st0)
     = reported (run_batches f (to_index S st0) (max 1 (nat \<lceil>real (length (to_index S st0)) / 4\<rceil>)) 0
                \<lparr>final = (loadCachedIndex st0)\<lparr>isIndexingRef := True, isIndexing := True\<rparr>,
                 fetched = [], reported = [], batches = []\<rparr>)"
  unfolding buildIndex_run [OF assms] Let_def by simp

lemma buildIndex_final:
  assumes "to_index S st0 \<noteq> []" and "getClient e = Some f"
  defines "mid \<equiv> pruneDeletedSessions S (indexSessionBatch f (to_index S st0) (loadCachedIndex st0))"
  shows "indexedData (final (buildIndex e S st0)) = indexedData mid"
    and "index (final (buildIndex e S st0)) = index mid"
    and "storage (final (buildIndex e S st0))
           = (if setItem_ok e then Json (snapshot (indexedData mid)) else storage st0)"
    and "isIndexingRef (final (buildIndex e S st0)) = False"
    and "isIndexing (final (buildIndex e S st0)) = False"
proof -
  let ?c0 = "\<lparr>final = (loadCachedIndex st0)\<lparr>isIndexingRef := True, isIndexing := True\<rparr>,
              fetched = [], reported = [], batches = []\<rparr>"
  let ?bs = "max 1 (nat \<lceil>real (length (to_index S st0)) / 4\<rceil>)"
  obtain p where "final (run_batches f (to_index S st0) ?bs 0 ?c0)
      = (indexSessionBatch f (take ((4 - 0) * ?bs) (drop (0 * ?bs) (to_index S st0))) (final ?c0))\<lparr>indexProgress := p\<rparr>"
    using run_batches_final [of f "to_index S st0" ?bs 0 ?c0] by blast
  then have r: "final (run_batches f (to_index S st0) ?bs 0 ?c0)
      = (indexSessionBatch f (to_index S st0) (loadCachedIndex st0))\<lparr>isIndexingRef := True, isIndexing := True, indexProgress := p\<rparr>"
    unfolding take_all_batches by (simp add: indexSessionBatch_flags)
  let ?st = "(indexSessionBatch f (to_index S st0) (loadCachedIndex st0))\<lparr>isIndexingRef := True, isIndexing := True, indexProgress := p\<rparr>"
  have fin: "final (buildIndex e S st0)
      = (saveCachedIndex (setItem_ok e) (pruneDeletedSessions S ?st))\<lparr>isIndexing := False, isIndexingRef := False\<rparr>"
    unfolding buildIndex_run [OF assms(1,2)] Let_def r by simp
  have d: "indexedData (pruneDeletedSessions S ?st) = indexedData mid"
    by (simp add: pruneDeletedSessions_data mid_def)
  have i: "index (pruneDeletedSessions S ?st) = index mid"
    by (simp add: pruneDeletedSessions_index mid_def)
  show "indexedData (final (buildIndex e S st0)) = indexedData mid"
    unfolding fin using d by (simp add: saveCachedIndex_def)
  show "index (final (buildIndex e S st0)) = index mid"
    unfolding fin using i by (simp add: saveCachedIndex_def)
  show "storage (final (buildIndex e S st0))
           = (if setItem_ok e then Json (snapshot (indexedData mid)) else storage st0)"
    unfolding fin using d
    by (simp add: saveCachedIndex_def pruneDeletedSessions_unchanged_fields
        indexSessionBatch_unchanged_fields loadCachedIndex_unchanged_fields)
  show "isIndexingRef (final (buildIndex e S st0)) = False"
    unfolding fin by simp
  show "isIndexing (final (buildIndex e S st0)) = False"
    unfolding fin by simp
qed

section \<open>Chunks\<close>

lemma chunk_size_ceil: "0 < n \<Longrightarrow> chunk_size n = nat \<lceil>real n / 4\<rceil>"
  unfolding chunk_size_def ceil_div4 by simp

lemma concat_chunks: "concat (chunks xs) = xs"
proof -
  let ?b = "chunk_size (length xs)"
  have four: "?b + (?b + (?b + ?b)) = 4 * ?b" by simp
  have "[0..<4] = [0, 1, 2, 3::nat]" by (simp add: upt_rec)
  then have "concat (chunks xs)
      = take ?b xs @ take ?b (drop ?b xs) @ take ?b (drop (2 * ?b) xs) @ take ?b (drop (3 * ?b) xs)"
    by (simp add: chunks_def batch_of_eq)
  also have "\<dots> = take (?b + (?b + (?b + ?b))) xs"
    by (simp add: take_add [symmetric] mult_2 numeral_3_eq_3 add.commute drop_drop [symmetric] del: drop_drop)
  also have "\<dots> = xs"
    unfolding four using ceil_bound [of "length xs"] by (simp add: chunk_size_def)
  finally show ?thesis .
qed

lemma length_batch_of: "length (batch_of xs bs i) = min bs (length xs - i * bs)"
  by (simp add: batch_of_eq)

lemma updated_desc_to_index: "updated_desc (to_index S st)"
  unfolding updated_desc_def to_index_def findSessionsNeedingIndex_def sort_desc_def
  by (rule sorted_filter) (rule sorted_sort_key)

lemma updated_desc_nth:
  "updated_desc xs \<Longrightarrow> i \<le> j \<Longrightarrow> j < length xs \<Longrightarrow> s_updated (xs ! j) \<le> s_updated (xs ! i)"
  unfolding updated_desc_def using sorted_nth_mono [of "map (\<lambda>s. - s_updated s) xs" i j] by simp

lemma run_batches_reported:
  "reported (run_batches f xs bs i c)
     = reported c @ map progress_of [i ..< i + length (takeWhile (\<lambda>b. b \<noteq> []) (map (batch_of xs bs) [i..<4]))]"
proof (induction f xs bs i c rule: run_batches.induct)
  case (1 f xs bs i c)
  show ?case
  proof (cases "i < 4")
    case False
    then show ?thesis by (subst run_batches.simps) simp
  next
    case lt: True
    then have u: "[i..<4] = i # [i + 1..<4]" by (simp add: upt_rec)
    show ?thesis
    proof (cases "batch_of xs bs i = []")
      case True
      with lt show ?thesis unfolding u by (subst run_batches.simps) simp
    next
      case False
      let ?L = "length (takeWhile (\<lambda>b. b \<noteq> []) (map (batch_of xs bs) [i + 1..<4]))"
      have "[i..<i + (1 + ?L)] = i # [i + 1..<i + 1 + ?L]" by (simp add: upt_rec)
      with lt False 1 show ?thesis
        unfolding u by (subst run_batches.simps) (simp add: Let_def)
    qed
  qed
qed

lemma buildIndex_reported:
  assumes "to_index S st0 \<noteq> []" and "getClient e = Some f"
  shows "reported (buildIndex e S st0)
     = map progress_of [0 ..< length (takeWhile (\<lambda>b. b \<noteq> []) (chunks (to_index S st0)))]"
  unfolding buildIndex_reported_run [OF assms] run_batches_reported
  by (simp add: chunks_def chunk_size_def)

lemma progress_of_25: "progress_of i = 25 * (i + 1)"
proof -
  have "real (i + 1) / 4 * 100 = real (25 * (i + 1))" by simp
  then show ?thesis unfolding progress_of_def by (simp only: round_of_nat nat_int)
qed

lemma chunk_size_two: "chunk_size (Suc (Suc 0)) = 1"
  by (simp add: chunk_size_def ceil_div4)

section \<open>Orphans\<close>

lemma invariant_no_record_no_doc:
  "index_invariant st \<Longrightarrow> \<not> has (indexedData st) x \<Longrightarrow> map_of (index st) x = None"
  by (auto simp: index_invariant_iff has_iff_key map_of_eq_None_iff)

lemma buildIndex_prunes:
  assumes "to_index S st \<noteq> []" and "getClient e = Some f" and "x \<notin> s_id ` set S"
  shows "map_of (indexedData (final (buildIndex e S st))) x = None"
    and "index_invariant st \<Longrightarrow> map_of (index (final (buildIndex e S st))) x = None"
proof -
  let ?mid = "indexSessionBatch f (to_index S st) (loadCachedIndex st)"
  show "map_of (indexedData (final (buildIndex e S st))) x = None"
    unfolding buildIndex_final(1) [OF assms(1,2)] using assms(3)
    by (simp add: pruneDeletedSessions_record)
  assume "index_invariant st"
  then have "index_invariant ?mid"
    by (intro invariant_indexSessionBatch invariant_loadCachedIndex)
  then have "\<not> has (indexedData ?mid) x \<Longrightarrow> map_of (index ?mid) x = None"
    by (rule invariant_no_record_no_doc)
  then show "map_of (index (final (buildIndex e S st))) x = None"
    unfolding buildIndex_final(2) [OF assms(1,2)] using assms(3)
    by (simp add: pruneDeletedSessions_doc)
qed

lemma set_sort_desc: "set (sort_desc S) = set S"
  by (simp add: sort_desc_def)

lemma filterSessions_subset: "set (fst (filterSessions lib indexRef q S)) \<subseteq> set S"
  by (auto simp: filterSessions_def set_sort_desc Let_def split: option.splits)

section \<open>C2: progress values of a cycle\<close>

lemma two_sessions_cycle:
  "refresh (mk_env no_messages) [mk_session ''a'' ''A'' ''/a'' 100, mk_session ''b'' ''B'' ''/b'' 200]
      (mk_state [] [] NoItem)
   = \<lparr>final = mk_state [(''b'', ''B /b ''), (''a'', ''A /a '')]
               [(''b'', mk_record ''b'' ''B'' ''/b'' [] 200), (''a'', mk_record ''a'' ''A'' ''/a'' [] 100)]
               (Json (snapshot [(''b'', mk_record ''b'' ''B'' ''/b'' [] 200), (''a'', mk_record ''a'' ''A'' ''/a'' [] 100)]))
             \<lparr>indexProgress := 50\<rparr>,
      fetched = [''b'', ''a''], reported = [25, 50],
      batches = [[mk_session ''b'' ''B'' ''/b'' 200], [mk_session ''a'' ''A'' ''/a'' 100]]\<rparr>"
  by (simp add: refresh_def buildIndex_def mk_env_def mk_state_def mk_session_def mk_record_def
      loadCachedIndex_def sort_desc_def findSessionsNeedingIndex_def needsIndex_iff
      run_batches.simps batch_of_eq indexSessionBatch_def indexSession_def no_messages_def has_def
      extractTextFromMessages_def slice_last_def full_record_def index_text_def index_add_def
      pruneDeletedSessions_def prune_step_def saveCachedIndex_def progress_of_25 ceil_div4 Let_def)

lemma reported_sorted: "sorted (reported (refresh e S st))"
proof -
  have m: "sorted (map progress_of [0..<k])" for k
    by (induction k) (simp_all add: sorted_append progress_of_25)
  have "sorted (reported (buildIndex e S st))"
  proof (cases "to_index S st = []")
    case True
    then show ?thesis by (simp add: buildIndex_nothing)
  next
    case ne: False
    show ?thesis
    proof (cases "getClient e")
      case None
      then show ?thesis by (simp add: buildIndex_no_client [OF ne])
    next
      case (Some f)
      show ?thesis unfolding buildIndex_reported [OF ne Some] by (rule m)
    qed
  qed
  then show ?thesis by (simp add: refresh_def)
qed

text \<open>
  Claim C2 says that the progress values of a cycle are non-decreasing, equal to 25, 50, 75, 100
  after the processed chunks, and that the last value reported by a completed cycle is 100
  whatever the size of the work list. The values are \<open>25 * (i + 1)\<close> for the leading
  non-empty chunks, in increasing order (\<open>buildIndex_reported\<close>, \<open>progress_of_25\<close>,
  \<open>reported_sorted\<close>); the loop leaves at the first
  empty chunk and nothing is reported afterwards. With two sessions to index the cycle
  completes having reported 25 and 50 only.
\<close>

theorem C2_final_progress_below_100:
  "reported (refresh (mk_env no_messages)
       [mk_session ''a'' ''A'' ''/a'' 100, mk_session ''b'' ''B'' ''/b'' 200] (mk_state [] [] NoItem))
     = [25, 50]
   \<and> isIndexing (final (refresh (mk_env no_messages)
       [mk_session ''a'' ''A'' ''/a'' 100, mk_session ''b'' ''B'' ''/b'' 200] (mk_state [] [] NoItem))) = False
   \<and> indexProgress (final (refresh (mk_env no_messages)
       [mk_session ''a'' ''A'' ''/a'' 100, mk_session ''b'' ''B'' ''/b'' 200] (mk_state [] [] NoItem))) = 50"
  unfolding two_sessions_cycle by (simp add: mk_state_def)

section \<open>C1: orphans and the cycle that has nothing to index\<close>

lemma idle_cycle:
  "refresh (mk_env no_messages) [mk_session ''a'' ''A'' ''/a'' 100]
      (mk_state [] []
         (Json (snapshot [(''a'', mk_record ''a'' ''A'' ''/a'' [] 100), (''x'', mk_record ''x'' ''X'' ''/x'' [] 50)])))
     = \<lparr>final = (mk_state [(''a'', ''A /a ''), (''x'', ''X /x '')]
         [(''a'', mk_record ''a'' ''A'' ''/a'' [] 100), (''x'', mk_record ''x'' ''X'' ''/x'' [] 50)]
         (Json (snapshot [(''a'', mk_record ''a'' ''A'' ''/a'' [] 100), (''x'', mk_record ''x'' ''X'' ''/x'' [] 50)])))
           \<lparr>indexProgress := 100\<rparr>,
        fetched = [], reported = [100], batches = []\<rparr>"
  by (simp add: refresh_def buildIndex_def mk_env_def mk_state_def mk_session_def mk_record_def
      loadCachedIndex_def snapshot_def CACHE_VERSION_def load_item_def index_add_def index_text_def
      sort_desc_def findSessionsNeedingIndex_def needsIndex_iff Let_def)

text \<open>
  Claim C1 says that an id held in the record map and absent from the current session list is
  gone from the record map, the index and the search results after one cycle, also when no
  session needs indexing. A cycle that indexes something prunes it (\<open>buildIndex_prunes\<close>) and
  search results only ever contain current sessions (\<open>filterSessions_subset\<close>); but a cycle
  with nothing to index returns before pruning. Here the stored cache holds the current
  session \<open>a\<close>, unchanged, and the orphan \<open>x\<close>; memory starts empty. The cycle loads both,
  finds nothing to index and ends with \<open>x\<close> still in the record map and in the index.
\<close>

theorem C1_orphan_survives_idle_cycle:
  "''x'' \<notin> set (map s_id [mk_session ''a'' ''A'' ''/a'' 100])
   \<and> isIndexing (final (refresh (mk_env no_messages) [mk_session ''a'' ''A'' ''/a'' 100]
      (mk_state [] []
         (Json (snapshot [(''a'', mk_record ''a'' ''A'' ''/a'' [] 100), (''x'', mk_record ''x'' ''X'' ''/x'' [] 50)]))))) = False
   \<and> map_of (indexedData (final (refresh (mk_env no_messages) [mk_session ''a'' ''A'' ''/a'' 100]
      (mk_state [] []
         (Json (snapshot [(''a'', mk_record ''a'' ''A'' ''/a'' [] 100), (''x'', mk_record ''x'' ''X'' ''/x'' [] 50)])))))) ''x''
       = Some (mk_record ''x'' ''X'' ''/x'' [] 50)
   \<and> map_of (index (final (refresh (mk_env no_messages) [mk_session ''a'' ''A'' ''/a'' 100]
      (mk_state [] []
         (Json (snapshot [(''a'', mk_record ''a'' ''A'' ''/a'' [] 100), (''x'', mk_record ''x'' ''X'' ''/x'' [] 50)])))))) ''x''
       = Some ''X /x ''"
  unfolding idle_cycle by (simp add: mk_state_def mk_session_def)

section \<open>C3: a failed fetch inside a batch\<close>

text \<open>
  Claim C3 says that a session whose fetch fails is indexed with its title and directory only,
  also when a record of that id exists, the old record and postings being replaced. With a
  record present the failure branch changes nothing: the old record (old title, old content,
  old timestamp) and the old document stay.
\<close>

theorem C3_counterexample:
  "map_of (indexedData (indexSessionBatch failing [mk_session ''x'' ''New'' ''/x'' 150]
       (mk_state [(''x'', ''Old /x old words'')] [(''x'', mk_record ''x'' ''Old'' ''/x'' ''old words'' 100)] NoItem)))
     ''x'' = Some (mk_record ''x'' ''Old'' ''/x'' ''old words'' 100)
   \<and> map_of (index (indexSessionBatch failing [mk_session ''x'' ''New'' ''/x'' 150]
       (mk_state [(''x'', ''Old /x old words'')] [(''x'', mk_record ''x'' ''Old'' ''/x'' ''old words'' 100)] NoItem)))
     ''x'' = Some ''Old /x old words''
   \<and> mk_record ''x'' ''Old'' ''/x'' ''old words'' 100 \<noteq> full_record (mk_session ''x'' ''New'' ''/x'' 150) []"
  by (simp add: indexSessionBatch_def indexSession_def failing_def mk_state_def has_def mk_record_def
      full_record_def mk_session_def)

text \<open>
  Claim C3, amended. In a batch of sessions with distinct ids, a session whose fetch fails never
  stops the others (each session whose fetch succeeds ends with its full record and document),
  and it is never left without a record: when no record of its id existed, it gets the record
  with empty content and the live timestamp, and the document made of title and directory
  only; when a record of its id existed, that record and its document are kept as they were.
\<close>

theorem C3_failed_fetch_in_batch:
  assumes "distinct (map s_id batch)" and "s \<in> set batch"
    and "f (s_id s) (MESSAGES_PER_SESSION * 2) = None"
  shows "has (indexedData (indexSessionBatch f batch st)) (s_id s)
     \<and> (\<not> has (indexedData st) (s_id s) \<longrightarrow>
          map_of (indexedData (indexSessionBatch f batch st)) (s_id s) = Some (full_record s []) \<and>
          map_of (index (indexSessionBatch f batch st)) (s_id s) = Some (s_title s @ '' '' @ s_directory s))
     \<and> (has (indexedData st) (s_id s) \<longrightarrow>
          map_of (indexedData (indexSessionBatch f batch st)) (s_id s) = map_of (indexedData st) (s_id s) \<and>
          map_of (index (indexSessionBatch f batch st)) (s_id s) = map_of (index st) (s_id s))
     \<and> (\<forall>t \<in> set batch. \<forall>messages. f (s_id t) (MESSAGES_PER_SESSION * 2) = Some messages \<longrightarrow>
          map_of (indexedData (indexSessionBatch f batch st)) (s_id t)
            = Some (full_record t (extractTextFromMessages messages)) \<and>
          map_of (index (indexSessionBatch f batch st)) (s_id t)
            = Some (index_text (s_title t) (s_directory t) (extractTextFromMessages messages)))"
proof -
  obtain st' where
    r: "map_of (indexedData (indexSessionBatch f batch st)) (s_id s) = map_of (indexedData (indexSession f s st')) (s_id s)"
    and d: "map_of (index (indexSessionBatch f batch st)) (s_id s) = map_of (index (indexSession f s st')) (s_id s)"
    and r0: "map_of (indexedData st') (s_id s) = map_of (indexedData st) (s_id s)"
    and d0: "map_of (index st') (s_id s) = map_of (index st) (s_id s)"
    using indexSessionBatch_own [OF assms(1,2), of f st] by blast
  have h: "has (indexedData st') (s_id s) = has (indexedData st) (s_id s)"
    by (simp add: has_def r0)
  have new: "\<not> has (indexedData st) (s_id s) \<longrightarrow>
          map_of (indexedData (indexSessionBatch f batch st)) (s_id s) = Some (full_record s []) \<and>
          map_of (index (indexSessionBatch f batch st)) (s_id s) = Some (s_title s @ '' '' @ s_directory s)"
    unfolding r d using h indexSession_failed_new_record [where f = f and s = s and st = st', OF assms(3)]
      indexSession_failed_new_doc [where f = f and s = s and st = st', OF assms(3)] by simp
  have old: "has (indexedData st) (s_id s) \<longrightarrow>
          map_of (indexedData (indexSessionBatch f batch st)) (s_id s) = map_of (indexedData st) (s_id s) \<and>
          map_of (index (indexSessionBatch f batch st)) (s_id s) = map_of (index st) (s_id s)"
    unfolding r d using h indexSession_failed_old [where f = f and s = s and st = st', OF assms(3)] r0 d0 by simp
  have kept: "has (indexedData (indexSessionBatch f batch st)) (s_id s)"
    using new old by (cases "has (indexedData st) (s_id s)") (simp_all add: has_def)
  have others: "\<forall>t \<in> set batch. \<forall>messages. f (s_id t) (MESSAGES_PER_SESSION * 2) = Some messages \<longrightarrow>
          map_of (indexedData (indexSessionBatch f batch st)) (s_id t)
            = Some (full_record t (extractTextFromMessages messages)) \<and>
          map_of (index (indexSessionBatch f batch st)) (s_id t)
            = Some (index_text (s_title t) (s_directory t) (extractTextFromMessages messages))"
  proof (intro ballI allI impI)
    fix t messages
    assume t: "t \<in> set batch" and ok: "f (s_id t) (MESSAGES_PER_SESSION * 2) = Some messages"
    obtain st'' where
      "map_of (indexedData (indexSessionBatch f batch st)) (s_id t) = map_of (indexedData (indexSession f t st'')) (s_id t)"
      "map_of (index (indexSessionBatch f batch st)) (s_id t) = map_of (index (indexSession f t st'')) (s_id t)"
      using indexSessionBatch_own [OF assms(1) t, of f st] by blast
    then show "map_of (indexedData (indexSessionBatch f batch st)) (s_id t)
            = Some (full_record t (extractTextFromMessages messages)) \<and>
          map_of (index (indexSessionBatch f batch st)) (s_id t)
            = Some (index_text (s_title t) (s_directory t) (extractTextFromMessages messages))"
      using indexSession_fetched_record [where f = f and s = t and st = st'', OF ok]
        indexSession_fetched_doc [where f = f and s = t and st = st'', OF ok] by simp
  qed
  show ?thesis by (intro conjI kept new old others)
qed

theorem C3_witness:
  "distinct (map s_id [mk_session ''y'' ''Y'' ''/y'' 7, mk_session ''x'' ''X'' ''/x'' 150])
   \<and> mk_session ''x'' ''X'' ''/x'' 150 \<in> set [mk_session ''y'' ''Y'' ''/y'' 7, mk_session ''x'' ''X'' ''/x'' 150]
   \<and> fails_for_x ''x'' (MESSAGES_PER_SESSION * 2) = None
   \<and> map_of (indexedData (indexSessionBatch fails_for_x
         [mk_session ''y'' ''Y'' ''/y'' 7, mk_session ''x'' ''X'' ''/x'' 150] (mk_state [] [] NoItem))) ''x''
       = Some (mk_record ''x'' ''X'' ''/x'' [] 150)
   \<and> map_of (index (indexSessionBatch fails_for_x
         [mk_session ''y'' ''Y'' ''/y'' 7, mk_session ''x'' ''X'' ''/x'' 150] (mk_state [] [] NoItem))) ''x''
       = Some ''X /x''
   \<and> map_of (indexedData (indexSessionBatch fails_for_x
         [mk_session ''y'' ''Y'' ''/y'' 7, mk_session ''x'' ''X'' ''/x'' 150] (mk_state [] [] NoItem))) ''y''
       = Some (mk_record ''y'' ''Y'' ''/y'' ''hello'' 7)"
proof -
  let ?x = "mk_session ''x'' ''X'' ''/x'' 150"
  let ?y = "mk_session ''y'' ''Y'' ''/y'' 7"
  have 1: "distinct (map s_id [?y, ?x])" by (simp add: mk_session_def)
  have 2: "?x \<in> set [?y, ?x]" by simp
  have 3: "fails_for_x (s_id ?x) (MESSAGES_PER_SESSION * 2) = None"
    by (simp add: fails_for_x_def mk_session_def)
  have 4: "\<not> has (indexedData (mk_state [] [] NoItem)) (s_id ?x)"
    by (simp add: has_def mk_state_def)
  have 5: "fails_for_x (s_id ?y) (MESSAGES_PER_SESSION * 2) = Some [mk_message [text_part ''hello'']]"
    by (simp add: fails_for_x_def mk_session_def)
  have 6: "extractTextFromMessages [mk_message [text_part ''hello'']] = ''hello''"
    by (simp add: extractTextFromMessages_def slice_last_def mk_message_def text_part_def
        is_text_part_def text_of_def MESSAGES_PER_SESSION_def)
  have ids: "s_id ?x = ''x''" "s_id ?y = ''y''" by (simp_all add: mk_session_def)
  have recs: "full_record ?x [] = mk_record ''x'' ''X'' ''/x'' [] 150"
    "full_record ?y ''hello'' = mk_record ''y'' ''Y'' ''/y'' ''hello'' 7"
    "s_title ?x @ '' '' @ s_directory ?x = ''X /x''"
    by (simp_all add: full_record_def mk_record_def mk_session_def)
  from C3_failed_fetch_in_batch [where f = fails_for_x and s = ?x and batch = "[?y, ?x]"
      and st = "mk_state [] [] NoItem", OF 1 2 3] 4 5
  show ?thesis
    using 1 2 3 unfolding ids recs [symmetric] by (simp add: 6 ids)
qed

section \<open>C8: the invariant of index and record map\<close>

lemma index_invariant_cong:
  "indexedData a = indexedData b \<Longrightarrow> index a = index b \<Longrightarrow> index_invariant a = index_invariant b"
  by (simp add: index_invariant_def)

lemma invariant_buildIndex:
  assumes "index_invariant st"
  shows "index_invariant (final (buildIndex e S st))"
proof (cases "to_index S st = []")
  case True
  show ?thesis
    unfolding buildIndex_nothing [OF True]
    using invariant_loadCachedIndex [OF assms] by (simp add: index_invariant_def)
next
  case ne: False
  show ?thesis
  proof (cases "getClient e")
    case None
    show ?thesis
      unfolding buildIndex_no_client [OF ne None]
      using invariant_loadCachedIndex [OF assms] by (simp add: index_invariant_def)
  next
    case (Some f)
    let ?mid = "pruneDeletedSessions S (indexSessionBatch f (to_index S st) (loadCachedIndex st))"
    have "index_invariant ?mid"
      using assms
      by (intro invariant_pruneDeletedSessions invariant_indexSessionBatch invariant_loadCachedIndex)
    then show ?thesis
      using index_invariant_cong [OF buildIndex_final(1) [OF ne Some] buildIndex_final(2) [OF ne Some]]
      by simp
  qed
qed

lemma invariant_refresh: "index_invariant st \<Longrightarrow> index_invariant (final (refresh e S st))"
  by (simp add: refresh_def invariant_buildIndex)

lemma invariant_one_record:
  assumes "index_invariant st" and "i \<in> fst ` set (index st)"
  shows "\<exists>!r. r \<in> snd ` set (indexedData st) \<and> ix_id r = i"
proof -
  from assms(1) have d: "distinct (map fst (indexedData st))"
    and k: "\<forall>p \<in> set (indexedData st). ix_id (snd p) = fst p"
    and s: "fst ` set (index st) \<subseteq> fst ` set (indexedData st)"
    by (simp_all add: index_invariant_iff)
  from s assms(2) obtain r where r: "(i, r) \<in> set (indexedData st)" by force
  show ?thesis
  proof (rule ex1I [of _ r])
    show "r \<in> snd ` set (indexedData st) \<and> ix_id r = i"
      using r k by force
  next
    fix r'
    assume "r' \<in> snd ` set (indexedData st) \<and> ix_id r' = i"
    then obtain j where "(j, r') \<in> set (indexedData st)" and "ix_id r' = i" by force
    with k have "(i, r') \<in> set (indexedData st)" by force
    with r d show "r' = r" by (meson eq_key_imp_eq_value)
  qed
qed

lemma indexSession_record_built_from:
  assumes "map_of (indexedData (indexSession f s st)) (s_id s) = Some r"
  shows "map_of (indexedData st) (s_id s) = Some r
     \<or> (ix_id r = s_id s \<and> ix_title r = s_title s \<and> ix_directory r = s_directory s \<and> ix_updated r = s_updated s)"
proof (cases "f (s_id s) (MESSAGES_PER_SESSION * 2)")
  case None
  show ?thesis
  proof (cases "has (indexedData st) (s_id s)")
    case True
    with None assms show ?thesis by (simp add: indexSession_failed_old)
  next
    case False
    with None assms show ?thesis
      using indexSession_failed_new_record [where f = f and s = s and st = st]
      by (auto simp: full_record_def)
  qed
next
  case (Some messages)
  with assms show ?thesis
    using indexSession_fetched_record [where f = f and s = s and st = st, OF Some]
    by (auto simp: full_record_def)
qed

text \<open>
  Claim C8. The invariant (the record map is keyed, without repetition, by the id of the
  record it holds, and every id registered in the index has a record, hence exactly one record
  of that id) is preserved by the cache load, by indexing one session whether its fetch succeeds
  or fails, by a whole batch, by pruning, by clearing the cache and by a whole refresh. The
  record found under a session's id after indexing it is either the one that was there
  before or one built from that session, carrying its id, title, directory and its
  \<open>updated\<close> value as timestamp; indexing a session leaves the records of other ids alone and
  pruning only removes records.
\<close>

theorem C8_invariant_preserved:
  assumes "index_invariant st"
  shows "(\<forall>i \<in> fst ` set (index st). \<exists>!r. r \<in> snd ` set (indexedData st) \<and> ix_id r = i)
     \<and> index_invariant (loadCachedIndex st)
     \<and> index_invariant (indexSession f s st)
     \<and> index_invariant (indexSessionBatch f batch st)
     \<and> index_invariant (pruneDeletedSessions S st)
     \<and> index_invariant (clearCache ok st)
     \<and> index_invariant (final (refresh e S st))
     \<and> (\<forall>r. map_of (indexedData (indexSession f s st)) (s_id s) = Some r \<longrightarrow>
           map_of (indexedData st) (s_id s) = Some r \<or>
           (ix_id r = s_id s \<and> ix_title r = s_title s \<and> ix_directory r = s_directory s \<and>
            ix_updated r = s_updated s))
     \<and> (\<forall>x. x \<noteq> s_id s \<longrightarrow> map_of (indexedData (indexSession f s st)) x = map_of (indexedData st) x)
     \<and> (\<forall>x. map_of (indexedData (pruneDeletedSessions S st)) x
             = (if x \<in> s_id ` set S then map_of (indexedData st) x else None))"
proof -
  have a: "\<forall>i \<in> fst ` set (index st). \<exists>!r. r \<in> snd ` set (indexedData st) \<and> ix_id r = i"
    using invariant_one_record [OF assms] by blast
  have h: "\<forall>r. map_of (indexedData (indexSession f s st)) (s_id s) = Some r \<longrightarrow>
           map_of (indexedData st) (s_id s) = Some r \<or>
           (ix_id r = s_id s \<and> ix_title r = s_title s \<and> ix_directory r = s_directory s \<and>
            ix_updated r = s_updated s)"
    using indexSession_record_built_from [of f s st] by blast
  have i: "\<forall>x. x \<noteq> s_id s \<longrightarrow> map_of (indexedData (indexSession f s st)) x = map_of (indexedData st) x"
    by (simp add: indexSession_other_record)
  have j: "\<forall>x. map_of (indexedData (pruneDeletedSessions S st)) x
             = (if x \<in> s_id ` set S then map_of (indexedData st) x else None)"
    by (simp add: pruneDeletedSessions_record)
  show ?thesis
    by (intro conjI a h i j invariant_loadCachedIndex invariant_indexSession invariant_indexSessionBatch
        invariant_pruneDeletedSessions invariant_clearCache invariant_refresh assms)
qed

theorem C8_witness:
  "index_invariant (mk_state [(''x'', ''X /x '')] [(''x'', mk_record ''x'' ''X'' ''/x'' [] 50)] NoItem)
   \<and> index_invariant (indexSession no_messages (mk_session ''a'' ''A'' ''/a'' 100)
        (mk_state [(''x'', ''X /x '')] [(''x'', mk_record ''x'' ''X'' ''/x'' [] 50)] NoItem))
   \<and> map_of (indexedData (pruneDeletedSessions [mk_session ''a'' ''A'' ''/a'' 100]
        (mk_state [(''x'', ''X /x '')] [(''x'', mk_record ''x'' ''X'' ''/x'' [] 50)] NoItem))) ''x'' = None"
proof -
  let ?st = "mk_state [(''x'', ''X /x '')] [(''x'', mk_record ''x'' ''X'' ''/x'' [] 50)] NoItem"
  have h: "index_invariant ?st"
    by (simp add: index_invariant_def mk_state_def mk_record_def has_def)
  from C8_invariant_preserved [OF h, of no_messages "mk_session ''a'' ''A'' ''/a'' 100" "[]"
      "[mk_session ''a'' ''A'' ''/a'' 100]" True "mk_env no_messages"]
  have "index_invariant (indexSession no_messages (mk_session ''a'' ''A'' ''/a'' 100) ?st)"
    and "map_of (indexedData (pruneDeletedSessions [mk_session ''a'' ''A'' ''/a'' 100] ?st)) ''x''
       = (if ''x'' \<in> s_id ` set [mk_session ''a'' ''A'' ''/a'' 100] then map_of (indexedData ?st) ''x'' else None)"
    by blast+
  then show ?thesis using h by (simp add: mk_session_def)
qed

section \<open>C9: saving the record map and reading it back\<close>

lemma update_fresh_key: "k \<notin> fst ` set al \<Longrightarrow> AList.update k v al = al @ [(k, v)]"
  by (induction al) auto

lemma fold_load_item_roundtrip:
  assumes "distinct (map fst m)" and "\<forall>p \<in> set m. ix_id (snd p) = fst p" and "indexedData st = []" and "index st = []"
  shows "indexedData (fold load_item (map snd m) st) = m
       \<and> index (fold load_item (map snd m) st)
           = map (\<lambda>p. (fst p, index_text (ix_title (snd p)) (ix_directory (snd p)) (ix_content (snd p)))) m"
  using assms(1,2)
proof (induction m rule: rev_induct)
  case Nil
  then show ?case using assms(3,4) by simp
next
  case (snoc p m)
  obtain k r where p: "p = (k, r)" by (cases p)
  from snoc.prems have kr: "ix_id r = k" and notin: "k \<notin> fst ` set m"
    and d: "distinct (map fst m)" and i: "\<forall>p \<in> set m. ix_id (snd p) = fst p"
    by (auto simp: p)
  let ?doc = "\<lambda>p. (fst p, index_text (ix_title (snd p)) (ix_directory (snd p)) (ix_content (snd p)))"
  from snoc.IH [OF d i] have IH1: "indexedData (fold load_item (map snd m) st) = m"
    and IH2: "index (fold load_item (map snd m) st) = map ?doc m" by simp_all
  have notin2: "k \<notin> fst ` set (map ?doc m)" using notin by force
  let ?X = "fold load_item (map snd m) st"
  have step: "fold load_item (map snd (m @ [p])) st = load_item r ?X" by (simp add: p)
  have "indexedData (load_item r ?X) = AList.update k r (indexedData ?X)"
    and "index (load_item r ?X) = AList.update k (snd (?doc (k, r))) (index ?X)"
    using kr by (simp_all add: load_item_def index_add_def)
  then show ?case
    unfolding step IH1 IH2 update_fresh_key [OF notin] update_fresh_key [OF notin2]
    by (simp add: p)
qed

text \<open>
  Claim C9. For a record map satisfying the invariant, saving writes a snapshot tagged with the
  current version whose record sequence is the sequence of the map's values; loading that
  snapshot into an empty record map reproduces the record map exactly (same ids, each with the
  same title, directory, content and timestamp, in the same order), and loading it over the
  map it was taken from changes no entry. \<^verbatim>\<open>JSON.stringify\<close> and \<^verbatim>\<open>JSON.parse\<close> are the
  platform's codec and are taken to be lossless on strings and integers.
\<close>

theorem C9_snapshot_roundtrip:
  assumes "index_invariant st"
  shows "storage (saveCachedIndex True st) = Json (snapshot (indexedData st))
     \<and> version (snapshot (indexedData st)) = CACHE_VERSION
     \<and> indexedSessions (snapshot (indexedData st)) = map snd (indexedData st)
     \<and> indexedData (loadCachedIndex ((saveCachedIndex True st)\<lparr>index := [], indexedData := []\<rparr>))
         = indexedData st
     \<and> (\<forall>x. map_of (indexedData (loadCachedIndex (saveCachedIndex True st))) x = map_of (indexedData st) x)"
proof -
  from assms have d: "distinct (map fst (indexedData st))"
    and k: "\<forall>p \<in> set (indexedData st). ix_id (snd p) = fst p"
    by (simp_all add: index_invariant_iff)
  have a: "storage (saveCachedIndex True st) = Json (snapshot (indexedData st))"
    by (simp add: saveCachedIndex_def)
  have b: "version (snapshot (indexedData st)) = CACHE_VERSION"
    and c: "indexedSessions (snapshot (indexedData st)) = map snd (indexedData st)"
    by (simp_all add: snapshot_def)
  have e: "indexedData (loadCachedIndex ((saveCachedIndex True st)\<lparr>index := [], indexedData := []\<rparr>))
         = indexedData st"
    using fold_load_item_roundtrip [OF d k, of "(saveCachedIndex True st)\<lparr>index := [], indexedData := []\<rparr>"]
    by (simp add: loadCachedIndex_fold a cache_items_snapshot)
  have f: "\<forall>x. map_of (indexedData (loadCachedIndex (saveCachedIndex True st))) x = map_of (indexedData st) x"
    by (simp add: loadCachedIndex_record a cached_record_snapshot [OF assms] saveCachedIndex_def
        split: option.splits)
  show ?thesis by (intro conjI a b c e f)
qed

theorem C9_witness:
  "index_invariant (mk_state [(''x'', ''X /x w'')] [(''x'', mk_record ''x'' ''X'' ''/x'' ''w'' 50)] NoItem)
   \<and> indexedData (loadCachedIndex
        ((saveCachedIndex True (mk_state [(''x'', ''X /x w'')] [(''x'', mk_record ''x'' ''X'' ''/x'' ''w'' 50)] NoItem))
           \<lparr>index := [], indexedData := []\<rparr>))
       = [(''x'', mk_record ''x'' ''X'' ''/x'' ''w'' 50)]"
proof -
  let ?st = "mk_state [(''x'', ''X /x w'')] [(''x'', mk_record ''x'' ''X'' ''/x'' ''w'' 50)] NoItem"
  have h: "index_invariant ?st"
    by (simp add: index_invariant_def mk_state_def mk_record_def has_def)
  have "indexedData ?st = [(''x'', mk_record ''x'' ''X'' ''/x'' ''w'' 50)]"
    by (simp add: mk_state_def)
  with C9_snapshot_roundtrip [OF h] h show ?thesis by simp
qed

section \<open>Selection and fetches of a cycle\<close>








section \<open>The stored cache against the record map\<close>







section \<open>The record of a current session after a cycle\<close>








section \<open>C5: change detection and the unchanged session\<close>





section \<open>C6: the work list is processed most recent first, in four chunks\<close>

lemma run_batches_batches:
  "batches (run_batches f xs bs i c)
     = batches c @ takeWhile (\<lambda>b. b \<noteq> []) (map (batch_of xs bs) [i..<4])"
proof (induction f xs bs i c rule: run_batches.induct)
  case (1 f xs bs i c)
  show ?case
  proof (cases "i < 4")
    case False
    then show ?thesis by (subst run_batches.simps) simp
  next
    case lt: True
    then have u: "[i..<4] = i # [i + 1..<4]" by (simp add: upt_rec)
    show ?thesis
    proof (cases "batch_of xs bs i = []")
      case True
      with lt show ?thesis unfolding u by (subst run_batches.simps) simp
    next
      case False
      with lt 1 show ?thesis
        unfolding u by (subst run_batches.simps) (simp add: Let_def)
    qed
  qed
qed

lemma buildIndex_batches:
  assumes "to_index S st0 \<noteq> []" and "getClient e = Some f"
  shows "batches (buildIndex e S st0) = takeWhile (\<lambda>b. b \<noteq> []) (chunks (to_index S st0))"
  unfolding buildIndex_run [OF assms] Let_def
  by (simp add: run_batches_batches chunks_def chunk_size_def)

lemma chunks_explicit:
  "chunks xs = [take (chunk_size (length xs)) xs,
                take (chunk_size (length xs)) (drop (chunk_size (length xs)) xs),
                take (chunk_size (length xs)) (drop (2 * chunk_size (length xs)) xs),
                take (chunk_size (length xs)) (drop (3 * chunk_size (length xs)) xs)]"
  by (simp add: chunks_def batch_of_eq upt_rec numeral_eq_Suc)

lemma chunk_size_pos: "0 < chunk_size n"
  by (simp add: chunk_size_def)

text \<open>Only trailing chunks are empty.\<close>

lemma takeWhile_chunks:
  "takeWhile (\<lambda>b. b \<noteq> []) (chunks xs) = filter (\<lambda>b. b \<noteq> []) (chunks xs)"
  unfolding chunks_explicit using chunk_size_pos [of "length xs"]
  by auto

lemma indexSessionBatch_concat:
  "indexSessionBatch f (concat bs) st = fold (indexSessionBatch f) bs st"
proof (induction bs arbitrary: st)
  case Nil
  show ?case by (simp add: indexSessionBatch_def)
next
  case (Cons b bs)
  then show ?case by (simp add: indexSessionBatch_append)
qed

lemma concat_nonempty: "concat (filter (\<lambda>b. b \<noteq> []) bs) = concat bs"
  by (induction bs) simp_all

lemma concat_batches:
  assumes "to_index S st \<noteq> []" and "getClient e = Some f"
  shows "concat (batches (buildIndex e S st)) = to_index S st"
  unfolding buildIndex_batches [OF assms] takeWhile_chunks
  by (simp add: concat_nonempty concat_chunks)

text \<open>
  Claim C6. For a non-empty list of \<open>n\<close> sessions needing indexing, the list is in descending
  order of \<open>updated\<close>. It is cut into exactly four chunks of size \<open>\<lceil>n / 4\<rceil>\<close>: the slices of that
  length at offsets 0, 1, 2 and 3 times that length, the last ones smaller or empty, whose
  concatenation is the list. The batches handed to the batch indexer are the non-empty
  chunks, one after the other, which is every chunk up to the first empty one; the fetches
  are those of the batches in that order, one progress value is reported per batch, and the
  record map and the index at the end of the cycle are those obtained by indexing batch
  after batch and then pruning. For \<open>n = 2\<close> the batches are the more recent session, then the
  other one, and the chunk sizes are 1, 1, 0, 0.
\<close>

theorem C6_chunked_in_order:
  assumes "to_index S st \<noteq> []" and "getClient e = Some f"
  shows "(\<forall>j < length (to_index S st). \<forall>i \<le> j.
            s_updated (to_index S st ! j) \<le> s_updated (to_index S st ! i))
     \<and> chunk_size (length (to_index S st)) = nat \<lceil>real (length (to_index S st)) / 4\<rceil>
     \<and> chunks (to_index S st)
         = [take (chunk_size (length (to_index S st))) (to_index S st),
            take (chunk_size (length (to_index S st)))
              (drop (chunk_size (length (to_index S st))) (to_index S st)),
            take (chunk_size (length (to_index S st)))
              (drop (2 * chunk_size (length (to_index S st))) (to_index S st)),
            take (chunk_size (length (to_index S st)))
              (drop (3 * chunk_size (length (to_index S st))) (to_index S st))]
     \<and> concat (chunks (to_index S st)) = to_index S st
     \<and> batches (buildIndex e S st) = filter (\<lambda>b. b \<noteq> []) (chunks (to_index S st))
     \<and> batches (buildIndex e S st) = takeWhile (\<lambda>b. b \<noteq> []) (chunks (to_index S st))
     \<and> fetched (buildIndex e S st) = map s_id (concat (batches (buildIndex e S st)))
     \<and> reported (buildIndex e S st) = map progress_of [0 ..< length (batches (buildIndex e S st))]
     \<and> indexedData (final (buildIndex e S st))
         = indexedData (pruneDeletedSessions S
             (fold (indexSessionBatch f) (batches (buildIndex e S st)) (loadCachedIndex st)))
     \<and> index (final (buildIndex e S st))
         = index (pruneDeletedSessions S
             (fold (indexSessionBatch f) (batches (buildIndex e S st)) (loadCachedIndex st)))
     \<and> (length (to_index S st) = 2 \<longrightarrow>
          batches (buildIndex e S st) = [[to_index S st ! 0], [to_index S st ! 1]] \<and>
          map length (chunks (to_index S st)) = [1, 1, 0, 0] \<and>
          s_updated (to_index S st ! 1) \<le> s_updated (to_index S st ! 0))"
proof -
  let ?xs = "to_index S st"
  let ?c = "buildIndex e S st"
  have n: "0 < length ?xs" using assms by simp
  have desc: "updated_desc ?xs" by (rule updated_desc_to_index)
  have a: "\<forall>j < length ?xs. \<forall>i \<le> j. s_updated (?xs ! j) \<le> s_updated (?xs ! i)"
    using desc updated_desc_nth by blast
  have b: "chunk_size (length ?xs) = nat \<lceil>real (length ?xs) / 4\<rceil>"
    using n by (rule chunk_size_ceil)
  have c: "chunks ?xs
         = [take (chunk_size (length ?xs)) ?xs,
            take (chunk_size (length ?xs)) (drop (chunk_size (length ?xs)) ?xs),
            take (chunk_size (length ?xs)) (drop (2 * chunk_size (length ?xs)) ?xs),
            take (chunk_size (length ?xs)) (drop (3 * chunk_size (length ?xs)) ?xs)]"
    by (rule chunks_explicit)
  have d: "concat (chunks ?xs) = ?xs" by (rule concat_chunks)
  have tw: "batches ?c = takeWhile (\<lambda>b. b \<noteq> []) (chunks ?xs)"
    by (rule buildIndex_batches [OF assms])
  have fl: "batches ?c = filter (\<lambda>b. b \<noteq> []) (chunks ?xs)"
    unfolding tw by (rule takeWhile_chunks)
  have cb: "concat (batches ?c) = ?xs" by (rule concat_batches [OF assms])
  have fe: "fetched ?c = map s_id (concat (batches ?c))"
    unfolding cb by (rule buildIndex_fetched [OF assms])
  have re: "reported ?c = map progress_of [0 ..< length (batches ?c)]"
    unfolding tw by (rule buildIndex_reported [OF assms])
  have fo: "fold (indexSessionBatch f) (batches ?c) (loadCachedIndex st)
      = indexSessionBatch f ?xs (loadCachedIndex st)"
    using indexSessionBatch_concat [of f "batches ?c" "loadCachedIndex st"] cb by simp
  have da: "indexedData (final ?c)
         = indexedData (pruneDeletedSessions S
             (fold (indexSessionBatch f) (batches ?c) (loadCachedIndex st)))"
    unfolding fo by (rule buildIndex_final(1) [OF assms])
  have ix: "index (final ?c)
         = index (pruneDeletedSessions S
             (fold (indexSessionBatch f) (batches ?c) (loadCachedIndex st)))"
    unfolding fo by (rule buildIndex_final(2) [OF assms])
  have g: "length ?xs = 2 \<longrightarrow>
          batches ?c = [[?xs ! 0], [?xs ! 1]] \<and>
          map length (chunks ?xs) = [1, 1, 0, 0] \<and>
          s_updated (?xs ! 1) \<le> s_updated (?xs ! 0)"
  proof
    assume two: "length ?xs = 2"
    then obtain x y where xy: "?xs = [x, y]"
      by (auto simp: numeral_2_eq_2 length_Suc_conv)
    have ch: "chunks [x, y] = [[x], [y], [], []]"
      by (simp add: chunks_def chunk_size_two batch_of_eq upt_rec)
    have "batches ?c = [[?xs ! 0], [?xs ! 1]]"
      unfolding fl xy ch by simp
    moreover have "map length (chunks ?xs) = [1, 1, 0, 0]"
      unfolding xy ch by simp
    moreover have "s_updated (?xs ! 1) \<le> s_updated (?xs ! 0)"
      using a two by simp
    ultimately show "batches ?c = [[?xs ! 0], [?xs ! 1]] \<and>
          map length (chunks ?xs) = [1, 1, 0, 0] \<and>
          s_updated (?xs ! 1) \<le> s_updated (?xs ! 0)"
      by simp
  qed
  show ?thesis by (intro conjI a b c d fl tw fe re da ix g)
qed

lemma to_index_example:
  "to_index [mk_session ''a'' ''A'' ''/a'' 100, mk_session ''b'' ''B'' ''/b'' 200] (mk_state [] [] NoItem)
     = [mk_session ''b'' ''B'' ''/b'' 200, mk_session ''a'' ''A'' ''/a'' 100]"
  by (simp add: to_index_def mk_session_def mk_state_def loadCachedIndex_def sort_desc_def
      findSessionsNeedingIndex_def needsIndex_def)

theorem C6_witness:
  "to_index [mk_session ''a'' ''A'' ''/a'' 100, mk_session ''b'' ''B'' ''/b'' 200] (mk_state [] [] NoItem) \<noteq> []
   \<and> getClient (mk_env no_messages) = Some no_messages
   \<and> batches (buildIndex (mk_env no_messages) [mk_session ''a'' ''A'' ''/a'' 100, mk_session ''b'' ''B'' ''/b'' 200]
        (mk_state [] [] NoItem))
       = [[mk_session ''b'' ''B'' ''/b'' 200], [mk_session ''a'' ''A'' ''/a'' 100]]
   \<and> map length (chunks (to_index [mk_session ''a'' ''A'' ''/a'' 100, mk_session ''b'' ''B'' ''/b'' 200]
        (mk_state [] [] NoItem))) = [1, 1, 0, 0]
   \<and> fetched (buildIndex (mk_env no_messages) [mk_session ''a'' ''A'' ''/a'' 100, mk_session ''b'' ''B'' ''/b'' 200]
        (mk_state [] [] NoItem)) = [''b'', ''a'']"
proof -
  let ?S = "[mk_session ''a'' ''A'' ''/a'' 100, mk_session ''b'' ''B'' ''/b'' 200]"
  let ?st = "mk_state [] [] NoItem"
  have 1: "to_index ?S ?st \<noteq> []" by (simp add: to_index_example)
  have 2: "getClient (mk_env no_messages) = Some no_messages" by (simp add: mk_env_def)
  have 3: "length (to_index ?S ?st) = 2" by (simp add: to_index_example)
  note T = C6_chunked_in_order [OF 1 2]
  have "batches (buildIndex (mk_env no_messages) ?S ?st) = [[to_index ?S ?st ! 0], [to_index ?S ?st ! 1]]"
    and "map length (chunks (to_index ?S ?st)) = [1, 1, 0, 0]"
    and "fetched (buildIndex (mk_env no_messages) ?S ?st)
           = map s_id (concat (batches (buildIndex (mk_env no_messages) ?S ?st)))"
    using T 3 by blast+
  then show ?thesis using 1 2 by (simp add: to_index_example) (simp add: mk_session_def)
qed

section \<open>C4: the blank query\<close>

lemma trim_blank_iff: "trim s = [] \<longleftrightarrow> list_all is_ws s"
proof
  assume "list_all is_ws s"
  then have e: "dropWhile is_ws s = []" by (induction s) simp_all
  show "trim s = []" unfolding trim_def e by simp
next
  assume "trim s = []"
  then have "dropWhile is_ws (rev (dropWhile is_ws s)) = []" by (simp add: trim_def)
  then have "\<forall>c \<in> set (dropWhile is_ws s). is_ws c"
    using dropWhile_eq_Nil_conv [of is_ws "rev (dropWhile is_ws s)"] by simp
  moreover have "dropWhile is_ws s \<noteq> [] \<Longrightarrow> \<not> is_ws (hd (dropWhile is_ws s))"
    by (rule hd_dropWhile)
  ultimately have "dropWhile is_ws s = []"
    by (cases "dropWhile is_ws s") auto
  then show "list_all is_ws s"
    using dropWhile_eq_Nil_conv [of is_ws s] by (simp add: list_all_iff)
qed

lemma updated_desc_ui_step:
  assumes "updated_desc prev"
  shows "updated_desc (ui_step ev prev)"
proof (cases ev)
  case (LoadSessions r)
  then show ?thesis
    using assms by (cases r) (simp_all add: updated_desc_def sort_desc_def)
next
  case (HandleDelete session confirmed deleted)
  from assms have "updated_desc (filter (\<lambda>s. s_id s \<noteq> s_id session) prev)"
    unfolding updated_desc_def by (rule sorted_filter)
  with HandleDelete assms show ?thesis by simp
qed

lemma updated_desc_fold: "updated_desc start \<Longrightarrow> updated_desc (fold ui_step events start)"
  by (induction events arbitrary: start) (simp_all add: updated_desc_ui_step)

lemma updated_desc_sessions_after: "updated_desc (sessions_after events)"
  unfolding sessions_after_def by (rule updated_desc_fold) (simp add: updated_desc_def)

lemma sort_desc_sorted: "updated_desc xs \<Longrightarrow> sort_desc xs = xs"
  unfolding updated_desc_def sort_desc_def by (rule sort_key_id_if_sorted)

lemma updated_desc_pairs:
  "updated_desc xs \<longleftrightarrow> (\<forall>j < length xs. \<forall>i \<le> j. s_updated (xs ! j) \<le> s_updated (xs ! i))"
proof
  assume "updated_desc xs"
  then show "\<forall>j < length xs. \<forall>i \<le> j. s_updated (xs ! j) \<le> s_updated (xs ! i)"
    using updated_desc_nth by blast
next
  assume a: "\<forall>j < length xs. \<forall>i \<le> j. s_updated (xs ! j) \<le> s_updated (xs ! i)"
  have "sorted (map (\<lambda>s. - s_updated s) xs)"
    unfolding sorted_iff_nth_mono using a by simp
  then show "updated_desc xs" by (simp add: updated_desc_def)
qed

text \<open>
  Claim C4. For every session list that the command hands to the hook and every query made of
  white space only (the empty query included; these are exactly the queries that \<open>trim\<close>
  empties), the result is the full current session list, which is in descending order of
  \<open>updated\<close> (it is what sorting it most recent first gives), and no query is sent to the index.
\<close>

theorem C4_blank_query_returns_sorted_list:
  assumes "list_all is_ws searchText"
  shows "trim searchText = []
     \<and> filterSessions lib indexRef searchText (sessions_after events) = (sessions_after events, [])
     \<and> sessions_after events = sort_desc (sessions_after events)
     \<and> (\<forall>j < length (sessions_after events). \<forall>i \<le> j.
           s_updated (sessions_after events ! j) \<le> s_updated (sessions_after events ! i))"
proof -
  have a: "trim searchText = []" using assms by (simp add: trim_blank_iff)
  then have b: "filterSessions lib indexRef searchText (sessions_after events) = (sessions_after events, [])"
    by (simp add: filterSessions_def)
  have d: "updated_desc (sessions_after events)" by (rule updated_desc_sessions_after)
  then have c: "sessions_after events = sort_desc (sessions_after events)"
    by (simp add: sort_desc_sorted)
  have e: "\<forall>j < length (sessions_after events). \<forall>i \<le> j.
           s_updated (sessions_after events ! j) \<le> s_updated (sessions_after events ! i)"
    using d by (simp add: updated_desc_pairs)
  show ?thesis by (intro conjI a b c e)
qed

lemma sessions_after_example:
  "sessions_after [LoadSessions (Some [mk_session ''a'' ''A'' ''/a'' 100, mk_session ''b'' ''B'' ''/b'' 200])]
     = [mk_session ''b'' ''B'' ''/b'' 200, mk_session ''a'' ''A'' ''/a'' 100]"
  by (simp add: sessions_after_def sort_desc_def mk_session_def)

theorem C4_witness:
  "list_all is_ws [0x0020, 0x00A0, 0x2003]
   \<and> filterSessions no_hits (Some [])  [0x0020, 0x00A0, 0x2003]
        (sessions_after [LoadSessions (Some [mk_session ''a'' ''A'' ''/a'' 100, mk_session ''b'' ''B'' ''/b'' 200])])
     = ([mk_session ''b'' ''B'' ''/b'' 200, mk_session ''a'' ''A'' ''/a'' 100], [])"
proof -
  have h: "list_all is_ws [0x0020, 0x00A0, 0x2003]" by (simp add: is_ws_def)
  show ?thesis
    using h C4_blank_query_returns_sorted_list [OF h, of no_hits "Some []"
        "[LoadSessions (Some [mk_session ''a'' ''A'' ''/a'' 100, mk_session ''b'' ''B'' ''/b'' 200])]"]
    by (simp add: sessions_after_example)
qed

section \<open>C7: the content extractor\<close>

lemma join_spec_join: "join '' '' ts = spec_join ts"
  by (induction "'' ''" ts rule: join.induct) (simp_all add: spec_join_def split: list.splits)

lemma slice_last_spec_last: "slice_last k xs = spec_last k xs"
  by (simp add: slice_last_def spec_last_def rev_take)

lemma texts_of_message:
  "map text_of (filter is_text_part (m_parts msg)) = filter (\<lambda>t. t \<noteq> []) (spec_texts msg)"
proof -
  have "filter is_text_part ps
      = filter (\<lambda>part. text_of part \<noteq> []) (filter (\<lambda>part. p_type part = ''text'') ps)" for ps
    unfolding filter_filter
    by (rule filter_cong) (auto simp: is_text_part_def text_of_def split: option.splits)
  moreover have "spec_texts msg = map text_of (filter (\<lambda>part. p_type part = ''text'') (m_parts msg))"
    by (simp add: spec_texts_def text_of_def)
  ultimately show ?thesis by (simp add: filter_map o_def)
qed

lemma extract_spec: "extractTextFromMessages messages = spec_extract_nonempty 10 messages"
  by (simp add: extractTextFromMessages_def spec_extract_nonempty_def MESSAGES_PER_SESSION_def
      join_spec_join slice_last_spec_last texts_of_message)

lemma spec_last_suffix: "length recent = W \<Longrightarrow> spec_last W (older @ recent) = recent"
  by (simp add: spec_last_def)

lemma spec_last_short: "length xs \<le> W \<Longrightarrow> spec_last W xs = xs"
  by (simp add: spec_last_def)

text \<open>
  Claim C7 says that the extractor joins every textual segment of the last ten messages with
  single spaces. A segment of type \<^verbatim>\<open>text\<close> whose text is empty is skipped, so that no
  separator is written for it: the result differs from the join of all segments of type
  \<^verbatim>\<open>text\<close>.
\<close>

theorem C7_counterexample:
  "extractTextFromMessages [mk_message [text_part ''a'', text_part [], text_part ''b'']] = ''a b''
   \<and> spec_extract 10 [mk_message [text_part ''a'', text_part [], text_part ''b'']] = ''a  b''"
  by (simp add: extractTextFromMessages_def spec_extract_def spec_last_def spec_texts_def spec_join_def
      slice_last_def MESSAGES_PER_SESSION_def mk_message_def text_part_def is_text_part_def text_of_def)

text \<open>
  Claim C7, amended. For every list of messages the extractor returns the texts, joined by
  single spaces, of every segment of type \<^verbatim>\<open>text\<close> with a non-empty text of the last ten
  messages, in message order and in segment order within a message; other segments, and text
  segments with a missing or empty text, are ignored. Whatever precedes the last ten messages
  does not count, and all messages are used when there are at most ten.
\<close>

theorem C7_extracts_nonempty_text_segments:
  "extractTextFromMessages messages = spec_extract_nonempty 10 messages
   \<and> (length recent = 10 \<longrightarrow>
        extractTextFromMessages (older @ recent)
          = spec_join (concat (map (\<lambda>msg. filter (\<lambda>t. t \<noteq> []) (spec_texts msg)) recent)))
   \<and> (length messages \<le> 10 \<longrightarrow>
        extractTextFromMessages messages
          = spec_join (concat (map (\<lambda>msg. filter (\<lambda>t. t \<noteq> []) (spec_texts msg)) messages)))"
proof -
  have a: "extractTextFromMessages messages = spec_extract_nonempty 10 messages"
    by (rule extract_spec)
  have b: "length recent = 10 \<longrightarrow>
        extractTextFromMessages (older @ recent)
          = spec_join (concat (map (\<lambda>msg. filter (\<lambda>t. t \<noteq> []) (spec_texts msg)) recent))"
    by (simp add: extract_spec spec_extract_nonempty_def spec_last_suffix)
  have c: "length messages \<le> 10 \<longrightarrow>
        extractTextFromMessages messages
          = spec_join (concat (map (\<lambda>msg. filter (\<lambda>t. t \<noteq> []) (spec_texts msg)) messages))"
    by (simp add: extract_spec spec_extract_nonempty_def spec_last_short)
  show ?thesis by (intro conjI a b c)
qed

theorem C7_witness:
  "length (replicate 10 (mk_message [\<lparr>p_type = ''tool'', p_id = None, p_text = Some ''x''\<rparr>, text_part ''b''])) = 10
   \<and> extractTextFromMessages
        ([mk_message [text_part ''old'']]
          @ replicate 10 (mk_message [\<lparr>p_type = ''tool'', p_id = None, p_text = Some ''x''\<rparr>, text_part ''b'']))
       = ''b b b b b b b b b b''
   \<and> extractTextFromMessages [mk_message [text_part ''a'', text_part [], text_part ''b'']] = ''a b''"
proof -
  let ?m = "mk_message [\<lparr>p_type = ''tool'', p_id = None, p_text = Some ''x''\<rparr>, text_part ''b'']"
  let ?n = "mk_message [text_part ''a'', text_part [], text_part ''b'']"
  have h: "length (replicate 10 ?m) = 10" by simp
  have t: "filter (\<lambda>t. t \<noteq> []) (spec_texts ?m) = [''b'']"
    by (simp add: spec_texts_def mk_message_def text_part_def)
  have r: "replicate 10 ?m = [?m, ?m, ?m, ?m, ?m, ?m, ?m, ?m, ?m, ?m]"
    by (simp add: numeral_eq_Suc)
  have h2: "length [?n] \<le> 10" by simp
  note T = C7_extracts_nonempty_text_segments [of "[?n]" "replicate 10 ?m" "[mk_message [text_part ''old'']]"]
  have "extractTextFromMessages ([mk_message [text_part ''old'']] @ replicate 10 ?m)
          = spec_join (concat (map (\<lambda>msg. filter (\<lambda>t. t \<noteq> []) (spec_texts msg)) (replicate 10 ?m)))"
    and "extractTextFromMessages [?n]
          = spec_join (concat (map (\<lambda>msg. filter (\<lambda>t. t \<noteq> []) (spec_texts msg)) [?n]))"
    using T h h2 by blast+
  then show ?thesis
    unfolding r using h by (simp add: t spec_join_def) (simp add: spec_texts_def mk_message_def text_part_def)
qed

section \<open>A kept record through further cycles and relaunches\<close>












section \<open>C10: a degraded record and later refreshes\<close>





end
